theory Spec2Isabelle
  imports Main "HOL-Library.Word"
begin

unbundle bit_operations_syntax

section \<open>Values of the Go program\<close>

text \<open>
  A Go \<open>string\<close> and a Go \<open>[]byte\<close> are both sequences of bytes; they are modelled
  as \<open>string\<close> (a list of 8-bit characters). The 24 bytes of a message id take part in
  arithmetic and are modelled as 8-bit words. Go's \<open>int\<close> has 64 bits on the platforms
  the program is built for; it is modelled as \<open>int\<close>, with the wrap-around written out
  by \<open>wrap_int64\<close> where a conversion or an addition can leave the range.
\<close>

type_synonym byte = "8 word"

definition wrap_int64 :: "int \<Rightarrow> int" where
  "wrap_int64 x = (x + 2 ^ 63) mod 2 ^ 64 - 2 ^ 63"

definition to_uint64 :: "int \<Rightarrow> nat" where
  "to_uint64 x = nat (x mod 2 ^ 64)"

text \<open>
  Errors are values. The program builds its errors with \<open>errorf\<close> from a format string;
  the constructors below keep the arguments of the format (source name, line number and
  the offending value) and name the message. The last group are the errors of the Go
  library (\<open>io\<close>, \<open>bufio\<close>, \<open>strconv\<close>) and of the byte source, which the parser passes on unchanged;
  \<open>Panic\<close> stands for a run-time panic (an index or a slice bound out of range).
\<close>

datatype error =
    MissingAddress
  | InvalidAddress
  | FieldTooLong string int
  | InvalidLeadingSpace string int
  | UnknownField string int string
  | AddressError string int error string
  | InvalidTimeFormat string
  | InvalidIntegerSize string int string
  | BodyTooLarge string int int
  | InvalidBodySize string int int
  | InvalidFileSize string int int string int
  | TimestampInPast int
  | EOF
  | ErrUnexpectedEOF
  | ErrNoProgress
  | ErrNegativeCount
  | ErrBufferFull
  | ErrSyntax
  | ErrRange
  | ReadError nat
  | Panic

record Author =
  address :: string
  name :: string

record Attachment =
  file_name :: string
  dataStart :: int
  dataLen :: int

text \<open>
  \<open>Message.time\<close> is a Go \<open>time.Time\<close>; the program only reads its Unix time
  (\<open>m.time.Unix()\<close>) and prints it, so the field holds the Unix time in seconds.
\<close>

record Message =
  msg_id :: "byte list"
  msg_time :: int
  msg_subject :: string
  msg_from :: Author
  msg_to :: Author
  msg_body :: string
  msg_files :: "Attachment list"

definition MAX_BODY_SIZE :: int where
  "MAX_BODY_SIZE = 8 * 1024 * 1024"

definition idEpochBase :: int where
  "idEpochBase = 1600000000"

definition base62Characters :: string where
  "base62Characters = ''0123456789ABCDEFGHIJKLMNOPQRSTUVWXYZabcdefghijklmnopqrstuvwxyz''"

section \<open>The identifier\<close>

definition be32 :: "byte \<Rightarrow> byte \<Rightarrow> byte \<Rightarrow> byte \<Rightarrow> 32 word" where
  "be32 a b c d = push_bit 24 (ucast a) OR push_bit 16 (ucast b) OR push_bit 8 (ucast c) OR ucast d"

definition IdTimestamp :: "Message \<Rightarrow> 32 word" where
  "IdTimestamp m = be32 (msg_id m ! 0) (msg_id m ! 1) (msg_id m ! 2) (msg_id m ! 3)"

definition IdTime :: "Message \<Rightarrow> int" where
  "IdTime m = uint (IdTimestamp m) + idEpochBase"

text \<open>
  \<open>UpdateIdFromTime\<close> returns an error or \<open>nil\<close> and writes to the message it is called
  on; the model returns both the error and the message.
\<close>

definition UpdateIdFromTime :: "Message \<Rightarrow> error option \<times> Message" where
  "UpdateIdFromTime m =
     (let ut = msg_time m in
      if ut < idEpochBase then (Some (TimestampInPast ut), m)
      else
        let sec = (word_of_int (ut - idEpochBase) :: 32 word) in
        (None, m\<lparr>msg_id := (msg_id m)
            [0 := ucast (drop_bit 24 sec),
             1 := ucast (drop_bit 16 sec),
             2 := ucast (drop_bit 8 sec),
             3 := ucast sec]\<rparr>))"

subsection \<open>Base-62 text of the identifier\<close>

definition srcBase :: "64 word" where
  "srcBase = 0x100000000"

definition dstBase :: "64 word" where
  "dstBase = 62"

definition id_parts :: "byte list \<Rightarrow> 32 word list" where
  "id_parts i =
     [be32 (i ! 0) (i ! 1) (i ! 2) (i ! 3),
      be32 (i ! 4) (i ! 5) (i ! 6) (i ! 7),
      be32 (i ! 8) (i ! 9) (i ! 10) (i ! 11),
      be32 (i ! 12) (i ! 13) (i ! 14) (i ! 15),
      be32 (i ! 16) (i ! 17) (i ! 18) (i ! 19),
      be32 (i ! 20) (i ! 21) (i ! 22) (i ! 23)]"

text \<open>
  The inner loop of \<open>EncodeId\<close>: one long division of the words \<open>bp\<close> by 62, most
  significant word first. A digit is appended to the quotient unless the quotient is
  still empty and the digit is zero. In the source the quotient is written into the
  array \<open>bq\<close>, which from the second round on is also the array \<open>bp\<close> ranges over; the
  word at index \<open>i\<close> is read before the quotient, which is never longer than \<open>i\<close> at
  that moment, is extended, so the words read are those \<open>bp\<close> held when the loop began.
\<close>

fun EncodeId_divide :: "32 word list \<Rightarrow> 32 word list \<Rightarrow> 64 word \<Rightarrow> 32 word list \<times> 64 word" where
  "EncodeId_divide [] quot remainder = (quot, remainder)"
| "EncodeId_divide (c # bp) quot remainder =
     (let val = ucast c + remainder * srcBase;
          digit = val div dstBase;
          remainder' = val mod dstBase
      in EncodeId_divide bp
           (if length quot \<noteq> 0 \<or> digit \<noteq> 0 then quot @ [ucast digit] else quot)
           remainder')"

text \<open>
  The value of a sequence of 32-bit words, most significant word first. It is used to
  state what \<open>EncodeId_divide\<close> computes, and to show that the outer loop of
  \<open>EncodeId\<close> ends: every round divides the value by 62, and a value of zero leaves
  an empty quotient.
\<close>

fun words_value :: "32 word list \<Rightarrow> nat" where
  "words_value [] = 0"
| "words_value (c # cs) = unat c * 2 ^ (32 * length cs) + words_value cs"

lemma words_value_append: "words_value (q @ [d]) = words_value q * 2 ^ 32 + unat d"
  by (induction q) (simp_all add: power_add algebra_simps)

lemma words_value_pos: "q \<noteq> [] \<Longrightarrow> hd q \<noteq> 0 \<Longrightarrow> 0 < words_value q"
  by (cases q) (simp_all add: unat_gt_0)

lemma divide_word_step:
  fixes c :: "32 word" and r :: "64 word"
  assumes r: "unat r < 62"
  defines "v \<equiv> (ucast c :: 64 word) + r * srcBase"
  shows "unat v = unat c + unat r * 2 ^ 32"
    and "unat (v div dstBase) = (unat c + unat r * 2 ^ 32) div 62"
    and "unat (v mod dstBase) = (unat c + unat r * 2 ^ 32) mod 62"
    and "unat (ucast (v div dstBase) :: 32 word) = (unat c + unat r * 2 ^ 32) div 62"
proof -
  have c: "unat c < 2 ^ 32" using unsigned_less[of c, where ?'a = nat] by simp
  have uc: "unat (ucast c :: 64 word) = unat c" using c by (simp add: unsigned_ucast_eq take_bit_nat_eq_self)
  have sb: "unat srcBase = 2 ^ 32" by (simp add: srcBase_def)
  have "unat r * unat srcBase < 2 ^ 64" using r sb by simp
  then have m: "unat (r * srcBase) = unat r * 2 ^ 32"
    using unat_mult_lem[of r srcBase] sb by simp
  have "unat (ucast c :: 64 word) + unat (r * srcBase) < 2 ^ 64" using c r uc m by simp
  then show v: "unat v = unat c + unat r * 2 ^ 32"
    using unat_add_lem[of "ucast c :: 64 word" "r * srcBase"] uc m by (simp add: v_def)
  show d: "unat (v div dstBase) = (unat c + unat r * 2 ^ 32) div 62"
    by (simp add: unat_div v dstBase_def)
  show "unat (v mod dstBase) = (unat c + unat r * 2 ^ 32) mod 62"
    by (simp add: unat_mod v dstBase_def)
  have "(unat c + unat r * 2 ^ 32) div 62 < 2 ^ 32" using c r by simp
  then show "unat (ucast (v div dstBase) :: 32 word) = (unat c + unat r * 2 ^ 32) div 62"
    by (simp add: unsigned_ucast_eq take_bit_nat_eq_self d)
qed

lemma EncodeId_divide_value:
  assumes "unat r < 62" "q = [] \<or> hd q \<noteq> 0" "EncodeId_divide cs q r = (q', r')"
  shows "words_value q' * 62 + unat r' = (words_value q * 62 + unat r) * 2 ^ (32 * length cs) + words_value cs
         \<and> unat r' < 62 \<and> (q' = [] \<or> hd q' \<noteq> 0)"
  using assms
proof (induction cs arbitrary: q r)
  case Nil
  then show ?case by simp
next
  case (Cons c cs)
  define v where "v = (ucast c :: 64 word) + r * srcBase"
  define digit where "digit = v div dstBase"
  define r1 where "r1 = v mod dstBase"
  define q1 where "q1 = (if length q \<noteq> 0 \<or> digit \<noteq> 0 then q @ [ucast digit :: 32 word] else q)"
  note ws = divide_word_step[OF Cons.prems(1), of c, folded v_def, folded digit_def r1_def]
  have rec: "EncodeId_divide cs q1 r1 = (q', r')"
    using Cons.prems(3) by (simp only: EncodeId_divide.simps Let_def v_def digit_def r1_def q1_def)
  have r1: "unat r1 < 62" using ws(3) by simp
  have dz: "digit = 0 \<longleftrightarrow> (ucast digit :: 32 word) = 0"
    using ws(2) ws(4) by (metis unat_eq_0)
  have q1c: "q1 = [] \<or> hd q1 \<noteq> 0"
    using Cons.prems(2) dz by (cases q) (auto simp: q1_def)
  have q1v: "words_value q1 = words_value q * 2 ^ 32 + unat (ucast digit :: 32 word)"
  proof (cases "length q \<noteq> 0 \<or> digit \<noteq> 0")
    case True
    then show ?thesis by (simp add: q1_def words_value_append)
  next
    case False
    then show ?thesis using dz by (simp add: q1_def)
  qed
  have step: "words_value q1 * 62 + unat r1 = (words_value q * 62 + unat r) * 2 ^ 32 + unat c"
  proof -
    have "words_value q1 * 62 + unat r1 =
          words_value q * 2 ^ 32 * 62 + ((unat c + unat r * 2 ^ 32) div 62 * 62 + (unat c + unat r * 2 ^ 32) mod 62)"
      unfolding q1v ws(4) ws(3) by (simp add: algebra_simps)
    also have "\<dots> = words_value q * 2 ^ 32 * 62 + (unat c + unat r * 2 ^ 32)"
      by (simp only: div_mult_mod_eq)
    finally show ?thesis by (simp add: algebra_simps)
  qed
  from Cons.IH[OF r1 q1c rec]
  have IH: "words_value q' * 62 + unat r' = (words_value q1 * 62 + unat r1) * 2 ^ (32 * length cs) + words_value cs"
    and rest: "unat r' < 62" "q' = [] \<or> hd q' \<noteq> 0" by auto
  have "words_value q' * 62 + unat r' =
        ((words_value q * 62 + unat r) * 2 ^ 32 + unat c) * 2 ^ (32 * length cs) + words_value cs"
    unfolding IH step ..
  also have "\<dots> = (words_value q * 62 + unat r) * 2 ^ (32 * length (c # cs)) + words_value (c # cs)"
    by (simp add: power_add algebra_simps)
  finally show ?case using rest by simp
qed

lemma EncodeId_divide_divmod:
  assumes "EncodeId_divide bp [] 0 = (q, r)"
  shows "words_value q = words_value bp div 62" "unat r = words_value bp mod 62"
    "q = [] \<or> hd q \<noteq> 0"
proof -
  from EncodeId_divide_value[OF _ _ assms]
  have e: "words_value q * 62 + unat r = words_value bp" and r: "unat r < 62"
    and c: "q = [] \<or> hd q \<noteq> 0" by auto
  show "words_value q = words_value bp div 62" using e r by (metis add.commute div_mult_self2 div_less zero_neq_numeral add.right_neutral mult.commute)
  show "unat r = words_value bp mod 62" using e r by (metis mod_mult_self3 mod_less)
  show "q = [] \<or> hd q \<noteq> 0" by (rule c)
qed

lemma EncodeId_divide_length:
  "EncodeId_divide cs q r = (q', r') \<Longrightarrow> length q' \<le> length q + length cs"
proof (induction cs arbitrary: q r)
  case Nil
  then show ?case by simp
next
  case (Cons c cs)
  from Cons.prems obtain q1 r1 where "EncodeId_divide cs q1 r1 = (q', r')" "length q1 \<le> Suc (length q)"
    by (auto simp: Let_def split: if_splits)
  with Cons.IH[of q1 r1] show ?case by simp
qed

text \<open>
  The outer loop of \<open>EncodeId\<close> writes one base-62 digit per round, from the end of
  \<open>dst\<close> towards its start; \<open>n\<close> is the index written last. An index outside
  \<open>dst\<close> or outside \<open>base62Characters\<close> panics. After the loop the source writes
  one more \<open>'0'\<close> in front and returns \<open>dst[n-1:]\<close>.
\<close>

function EncodeId_loop :: "32 word list \<Rightarrow> string \<Rightarrow> int \<Rightarrow> error + (string \<times> int)" where
  "EncodeId_loop bp dst n =
     (if length bp \<noteq> 0 then
        (case EncodeId_divide bp [] 0 of
           (quot, remainder) \<Rightarrow>
             (let n' = n - 1 in
              if n' < 0 \<or> int (length dst) \<le> n' \<or> 62 \<le> unat remainder then Inl Panic
              else EncodeId_loop quot (dst[nat n' := base62Characters ! unat remainder]) n'))
      else Inr (dst, n))"
  by pat_completeness auto
termination
  apply (relation "inv_image (less_than <*lex*> less_than) (\<lambda>(bp, dst, n). (words_value bp, length bp))")
  subgoal by (intro wf_inv_image wf_lex_prod wf_less_than)
  subgoal for bp dst n x y xa
  proof -
    assume bp: "length bp \<noteq> 0" and d: "(x, y) = EncodeId_divide bp [] 0"
    note dm = EncodeId_divide_divmod[OF d[symmetric]]
    show ?thesis
    proof (cases "words_value bp = 0")
      case True
      then have "words_value x = 0" using dm(1) by simp
      with dm(3) words_value_pos[of x] have "x = []" by auto
      then show ?thesis using True bp by simp
    next
      case False
      then have "words_value x < words_value bp" using dm(1) by simp
      then show ?thesis by simp
    qed
  qed
  done

definition EncodeId :: "Message \<Rightarrow> string \<Rightarrow> error + string" where
  "EncodeId m dst =
     (case EncodeId_loop (id_parts (msg_id m)) dst (int (length dst)) of
        Inl e \<Rightarrow> Inl e
      | Inr (dst1, n) \<Rightarrow>
          (let n1 = n - 1 in
           if n1 < 0 \<or> int (length dst1) \<le> n1 then Inl Panic
           else
             let dst2 = dst1[nat n1 := CHR ''0''] in
             if n1 - 1 < 0 then Inl Panic else Inr (drop (nat (n1 - 1)) dst2)))"

definition IdString :: "Message \<Rightarrow> error + string" where
  "IdString m = EncodeId m (replicate 50 (CHR 0x00))"

text \<open>
  The zero value of \<open>Message\<close>, as \<open>var m Message\<close> declares it: the id is 24 zero
  bytes and the time is Go's zero time, whose Unix time is -62135596800.
\<close>

definition zero_Message :: Message where
  "zero_Message =
     \<lparr>msg_id = replicate 24 0, msg_time = - 62135596800, msg_subject = [],
      msg_from = \<lparr>address = [], name = []\<rparr>, msg_to = \<lparr>address = [], name = []\<rparr>,
      msg_body = [], msg_files = []\<rparr>"

section \<open>Address normalization\<close>

text \<open>
  \<open>bytes.IndexByte\<close> and \<open>strings.IndexByte\<close>: the index of the first occurrence of a
  byte, or -1.
\<close>

fun IndexByte :: "string \<Rightarrow> char \<Rightarrow> int" where
  "IndexByte [] c = - 1"
| "IndexByte (x # xs) c =
     (if x = c then 0 else (let i = IndexByte xs c in if i = - 1 then - 1 else i + 1))"

lemma IndexByte_ge: "- 1 \<le> IndexByte s c"
  by (induction s) (auto simp: Let_def)

lemma IndexByte_minus1: "IndexByte s c = - 1 \<longleftrightarrow> c \<notin> set s"
proof (induction s)
  case Nil
  then show ?case by simp
next
  case (Cons x xs)
  have "- 1 \<le> IndexByte xs c" by (rule IndexByte_ge)
  then have "IndexByte xs c + 1 \<noteq> - 1" by simp
  then show ?case using Cons by (auto simp: Let_def)
qed

text \<open>
  The Unicode tables of the Go library are not part of the program. On text that is
  ASCII only, \<open>norm.NFC.String\<close> returns its argument, \<open>strings.ToLower\<close> maps the
  letters A to Z to a to z, and \<open>bytes.TrimSpace\<close> removes the six ASCII white space
  bytes from both ends; what the library does on other text is a parameter of the
  model (the record \<open>extern\<close>), as are the digest and the parser of times.
\<close>

record extern =
  nfc :: "string \<Rightarrow> string"
  unicode_lower :: "string \<Rightarrow> string"
  unicode_trim :: "string \<Rightarrow> string"
  time_Parse :: "string \<Rightarrow> string \<Rightarrow> int option"
  sha256_Sum :: "string \<Rightarrow> byte list"

definition is_ascii :: "char \<Rightarrow> bool" where
  "is_ascii c = (of_char c < (128 :: nat))"

definition NFC_String :: "extern \<Rightarrow> string \<Rightarrow> string" where
  "NFC_String X s = (if list_all is_ascii s then s else nfc X s)"

definition ascii_lower :: "char \<Rightarrow> char" where
  "ascii_lower c =
     (if (65 :: nat) \<le> of_char c \<and> of_char c \<le> (90 :: nat)
      then char_of (of_char c + (32 :: nat)) else c)"

definition ToLower :: "extern \<Rightarrow> string \<Rightarrow> string" where
  "ToLower X s = (if list_all is_ascii s then map ascii_lower s else unicode_lower X s)"

definition normalizeAndValidateAddress :: "extern \<Rightarrow> string \<Rightarrow> error + string" where
  "normalizeAndValidateAddress X address0 =
     (let address1 = NFC_String X address0;
          address2 = ToLower X address1
      in if IndexByte address2 (CHR ''@'') = - 1 then Inl InvalidAddress else Inr address2)"

definition asciiSpace :: "char \<Rightarrow> bool" where
  "asciiSpace c = (c \<in> set [CHR 0x09, CHR 0x0A, CHR 0x0B, CHR 0x0C, CHR 0x0D, CHR '' ''])"

text \<open>
  \<open>bytes.TrimSpace\<close>: ASCII white space is skipped from the front, then from the back;
  meeting a byte that is not ASCII on the way hands the rest to the Unicode-aware
  trimming of the library.
\<close>

fun trim_back :: "extern \<Rightarrow> string \<Rightarrow> string" where
  "trim_back X [] = []"
| "trim_back X (c # rs) =
     (if \<not> is_ascii c then unicode_trim X (rev (c # rs))
      else if asciiSpace c then trim_back X rs
      else rev (c # rs))"

fun TrimSpace :: "extern \<Rightarrow> string \<Rightarrow> string" where
  "TrimSpace X [] = []"
| "TrimSpace X (c # s) =
     (if \<not> is_ascii c then unicode_trim X (c # s)
      else if asciiSpace c then TrimSpace X s
      else trim_back X (rev (c # s)))"

text \<open>
  \<open>Author.Parse\<close> writes to the author it is called on, also when it fails: the model
  returns the error and the author.
\<close>

definition Author_Parse :: "extern \<Rightarrow> Author \<Rightarrow> string \<Rightarrow> error option \<times> Author" where
  "Author_Parse X a line0 =
     (let line1 = TrimSpace X line0 in
      if length line1 = 0 then (Some MissingAddress, a)
      else
        let p = IndexByte line1 (CHR '' '');
            a1 = (if p \<noteq> - 1 then a\<lparr>name := TrimSpace X (drop (nat p) line1)\<rparr> else a);
            line2 = (if p \<noteq> - 1 then take (nat p) line1 else line1)
        in case normalizeAndValidateAddress X line2 of
             Inl e \<Rightarrow> (Some e, a1\<lparr>address := []\<rparr>)
           | Inr addr \<Rightarrow> (None, a1\<lparr>address := addr\<rparr>))"

section \<open>The size of the read buffer\<close>

text \<open>
  \<open>bits.LeadingZeros64\<close> of the Go library is 64 minus the number of bits needed to
  write its argument (\<open>bits.Len64\<close>), which is 0 for 0.
\<close>

fun Len64 :: "nat \<Rightarrow> nat" where
  "Len64 x = (if x = 0 then 0 else Suc (Len64 (x div 2)))"

declare Len64.simps [simp del]

definition LeadingZeros64 :: "nat \<Rightarrow> nat" where
  "LeadingZeros64 x = 64 - Len64 x"

definition ilog2 :: "nat \<Rightarrow> int" where
  "ilog2 n = (if n \<le> 1 then 1 else (64 - int (LeadingZeros64 n)) - 1)"

text \<open>The first lines of \<open>ParseReader\<close>: the size asked of \<open>bufio.NewReaderSize\<close>.\<close>

definition ParseReader_bufsize :: "int \<Rightarrow> int" where
  "ParseReader_bufsize srcsize =
     (let bufsize = wrap_int64 (srcsize + 1);
          bufsize = (if bufsize > 4096 then 4096 else bufsize)
      in wrap_int64 (2 ^ nat (ilog2 (to_uint64 bufsize))))"


section \<open>The byte source and the hashing, counting reader\<close>

text \<open>
  An \<open>io.Reader\<close> is described by the results its \<open>Read\<close> calls deliver, in order:
  each entry is the bytes of one result and the error reported with them (\<open>None\<close> is
  \<open>nil\<close>). A call whose buffer is shorter than the next entry gets the bytes that fit,
  without error, and leaves the rest for the next call. A source that has delivered
  every entry reports \<open>io.EOF\<close> from then on.
\<close>

type_synonym Reader = "(string \<times> error option) list"

fun Reader_Read :: "Reader \<Rightarrow> nat \<Rightarrow> (string \<times> error option) \<times> Reader" where
  "Reader_Read [] lenp = (([], Some EOF), [])"
| "Reader_Read ((d, e) # rs) lenp =
     (if length d \<le> lenp then ((d, e), rs)
      else ((take lenp d, None), (drop lenp d, e) # rs))"

text \<open>
  The field \<open>hash\<close> holds the bytes written to the SHA-256 state so far; the digest of
  the library is applied to them when the sum is taken.
\<close>

record HashingCountingReader =
  Reader :: Reader
  nread :: int
  hash :: string

definition MakeSHA256HashingCountingReader :: "Reader \<Rightarrow> HashingCountingReader" where
  "MakeSHA256HashingCountingReader r = \<lparr>Reader = r, nread = 0, hash = []\<rparr>"

text \<open>
  \<open>Read\<close> is given the length of \<open>p\<close> and returns the bytes \<open>p[:n]\<close> and the error,
  with the reader as the call leaves it.
\<close>

definition HashingCountingReader_Read ::
  "HashingCountingReader \<Rightarrow> nat \<Rightarrow> (string \<times> error option) \<times> HashingCountingReader" where
  "HashingCountingReader_Read r lenp =
     (case Reader_Read (Reader r) lenp of
        ((p, err), rd) \<Rightarrow>
          (let r1 = r\<lparr>Reader := rd\<rparr> in
           if err = None
           then ((p, err), r1\<lparr>nread := nread r1 + int (length p), hash := hash r1 @ p\<rparr>)
           else ((p, err), r1)))"

section \<open>The buffered reader\<close>

text \<open>
  \<open>bufio.Reader\<close> of the Go library, as \<open>ParseReader\<close> uses it. The library keeps
  an array \<open>buf\<close> with a read index \<open>r\<close> and a write index \<open>w\<close>; before reading
  more it moves the unread bytes \<open>buf[r:w]\<close> to the front. The model keeps the unread
  bytes (field \<open>buf\<close>), the length of the array (\<open>bufsize\<close>), the reader it draws
  from (\<open>rd\<close>: \<open>ParseReader\<close> passes \<open>&cr\<close>, so \<open>cr.nread\<close> is \<open>nread (rd br)\<close>)
  and the error kept for the next call (\<open>err\<close>).
\<close>

record bufio_Reader =
  buf :: string
  bufsize :: nat
  rd :: HashingCountingReader
  err :: "error option"

definition minReadBufferSize :: int where
  "minReadBufferSize = 16"

definition maxConsecutiveEmptyReads :: nat where
  "maxConsecutiveEmptyReads = 100"

definition NewReaderSize :: "HashingCountingReader \<Rightarrow> int \<Rightarrow> bufio_Reader" where
  "NewReaderSize r size0 =
     \<lparr>buf = [], bufsize = nat (if size0 < minReadBufferSize then minReadBufferSize else size0),
      rd = r, err = None\<rparr>"

definition Buffered :: "bufio_Reader \<Rightarrow> int" where
  "Buffered b = int (length (buf b))"

text \<open>
  \<open>fill\<close> reads once into the free part of the array, and again while a read delivers
  nothing and no error, up to \<open>maxConsecutiveEmptyReads\<close> times. The bytes of a read
  are kept also when the read reports an error; the error is kept for later.
\<close>

fun fill_loop :: "nat \<Rightarrow> bufio_Reader \<Rightarrow> bufio_Reader" where
  "fill_loop 0 b = b\<lparr>err := Some ErrNoProgress\<rparr>"
| "fill_loop (Suc i) b =
     (case HashingCountingReader_Read (rd b) (bufsize b - length (buf b)) of
        ((p, e), r) \<Rightarrow>
          (let b1 = b\<lparr>rd := r, buf := buf b @ p\<rparr> in
           if e \<noteq> None then b1\<lparr>err := e\<rparr>
           else if 0 < length p then b1
           else fill_loop i b1))"

definition fill :: "bufio_Reader \<Rightarrow> bufio_Reader" where
  "fill b =
     (if bufsize b \<le> length (buf b) then b\<lparr>err := Some Panic\<rparr>
      else fill_loop maxConsecutiveEmptyReads b)"

text \<open>
  What is still to come from a reader: the unread bytes of the buffer and the entries
  of the byte source. No operation of the buffered reader makes it grow, and an
  operation that hands at least one byte to its caller makes it shrink; this is the
  measure by which the loops below end.
\<close>

fun rsize :: "Reader \<Rightarrow> nat" where
  "rsize [] = 0"
| "rsize ((d, e) # rs) = Suc (length d) + rsize rs"

definition pending :: "bufio_Reader \<Rightarrow> nat" where
  "pending b = length (buf b) + rsize (Reader (rd b))"

lemma Reader_Read_size:
  assumes "Reader_Read r lenp = ((p, e), r')"
  shows "rsize r' + length p \<le> rsize r" "length p \<le> lenp"
    "e = None \<Longrightarrow> p = [] \<Longrightarrow> 0 < lenp \<Longrightarrow> rsize r' < rsize r"
  using assms by (cases r; auto split: if_splits)+

lemma HashingCountingReader_Read_size:
  assumes "HashingCountingReader_Read h lenp = ((p, e), h')"
  shows "rsize (Reader h') + length p \<le> rsize (Reader h)" "length p \<le> lenp"
    "e = None \<Longrightarrow> p = [] \<Longrightarrow> 0 < lenp \<Longrightarrow> rsize (Reader h') < rsize (Reader h)"
proof -
  obtain p0 e0 r0 where rr: "Reader_Read (Reader h) lenp = ((p0, e0), r0)"
    by (metis prod.exhaust)
  with assms have eq: "p = p0" "e = e0" "Reader h' = r0"
    by (auto simp: HashingCountingReader_Read_def Let_def split: if_splits)
  from Reader_Read_size[OF rr] eq
  show "rsize (Reader h') + length p \<le> rsize (Reader h)" "length p \<le> lenp"
    "e = None \<Longrightarrow> p = [] \<Longrightarrow> 0 < lenp \<Longrightarrow> rsize (Reader h') < rsize (Reader h)"
    by auto
qed

lemma fill_loop_props:
  "bufsize (fill_loop i b) = bufsize b \<and>
   pending (fill_loop i b) \<le> pending b \<and>
   length (buf b) \<le> length (buf (fill_loop i b)) \<and>
   (err (fill_loop i b) = None \<longrightarrow> length (buf b) < length (buf (fill_loop i b)))"
proof (induction i arbitrary: b)
  case 0
  then show ?case by (simp add: pending_def)
next
  case (Suc i)
  obtain p e r where h: "HashingCountingReader_Read (rd b) (bufsize b - length (buf b)) = ((p, e), r)"
    by (metis prod.exhaust)
  note sz = HashingCountingReader_Read_size[OF h]
  define b1 where "b1 = b\<lparr>rd := r, buf := buf b @ p\<rparr>"
  have p1: "pending b1 \<le> pending b" using sz(1) by (simp add: b1_def pending_def)
  show ?case
  proof (cases "e \<noteq> None")
    case True
    then show ?thesis using h p1 by (auto simp: b1_def pending_def Let_def)
  next
    case False
    show ?thesis
    proof (cases "0 < length p")
      case True
      then show ?thesis using h p1 False by (auto simp: b1_def pending_def Let_def)
    next
      case F2: False
      then have "fill_loop (Suc i) b = fill_loop i b1" using h False by (simp add: b1_def Let_def)
      moreover have "bufsize b1 = bufsize b" "length (buf b1) = length (buf b)"
        using F2 by (simp_all add: b1_def)
      ultimately show ?thesis using Suc.IH[of b1] p1 by auto
    qed
  qed
qed

lemma fill_props:
  "bufsize (fill b) = bufsize b" "pending (fill b) \<le> pending b"
  "length (buf b) \<le> length (buf (fill b))"
  "err (fill b) = None \<Longrightarrow> length (buf b) < length (buf (fill b))"
  using fill_loop_props[of maxConsecutiveEmptyReads b]
  by (auto simp: fill_def pending_def)

text \<open>
  \<open>ReadSlice\<close> returns the bytes up to and including the delimiter; without a
  delimiter it fills the buffer until there is one, an error is pending (the rest of
  the buffer is returned with the error) or the buffer is full.
\<close>

function ReadSlice :: "bufio_Reader \<Rightarrow> char \<Rightarrow> (string \<times> error option) \<times> bufio_Reader" where
  "ReadSlice b delim =
     (let i = IndexByte (buf b) delim in
      if 0 \<le> i then ((take (nat i + 1) (buf b), None), b\<lparr>buf := drop (nat i + 1) (buf b)\<rparr>)
      else if err b \<noteq> None then ((buf b, err b), b\<lparr>buf := [], err := None\<rparr>)
      else if bufsize b \<le> length (buf b) then ((buf b, Some ErrBufferFull), b\<lparr>buf := []\<rparr>)
      else ReadSlice (fill b) delim)"
  by pat_completeness auto
termination
proof (relation "measure (\<lambda>(b, delim). (if err b = None then 1 else 0) + (bufsize b - length (buf b)))")
  show "wf (measure (\<lambda>(b :: bufio_Reader, delim :: char). (if err b = None then 1 else 0) + (bufsize b - length (buf b))))"
    by simp
next
  fix b :: bufio_Reader and delim :: char and x
  assume "\<not> err b \<noteq> None" "\<not> bufsize b \<le> length (buf b)"
  then have e: "err b = None" and l: "length (buf b) < bufsize b" by auto
  show "((fill b, delim), b, delim) \<in> measure (\<lambda>(b, delim). (if err b = None then 1 else 0) + (bufsize b - length (buf b)))"
  proof (cases "err (fill b) = None")
    case True
    from fill_props(4)[OF True] fill_props(1)[of b] l e True show ?thesis by auto
  next
    case False
    from fill_props(3)[of b] fill_props(1)[of b] l e False show ?thesis by auto
  qed
qed


declare ReadSlice.simps [simp del]

lemma ReadSlice_props:
  "ReadSlice b delim = ((line, e), b') \<Longrightarrow>
     pending b' + length line \<le> pending b \<and> bufsize b' = bufsize b \<and> (e = None \<longrightarrow> line \<noteq> [])"
proof (induction b delim arbitrary: line e b' rule: ReadSlice.induct)
  case (1 b delim)
  show ?case
  proof (cases "0 \<le> IndexByte (buf b) delim")
    case True
    then have "delim \<in> set (buf b)" using IndexByte_minus1[of "buf b" delim] by auto
    then have ne: "buf b \<noteq> []" by auto
    from True "1.prems" have
      "line = take (nat (IndexByte (buf b) delim) + 1) (buf b)" "e = None"
      "b' = b\<lparr>buf := drop (nat (IndexByte (buf b) delim) + 1) (buf b)\<rparr>"
      by (simp_all add: ReadSlice.simps[of b delim] Let_def)
    then show ?thesis using ne by (auto simp: pending_def)
  next
    case F1: False
    show ?thesis
    proof (cases "err b \<noteq> None")
      case True
      with F1 "1.prems" show ?thesis
        by (auto simp: ReadSlice.simps[of b delim] Let_def pending_def)
    next
      case F2: False
      show ?thesis
      proof (cases "bufsize b \<le> length (buf b)")
        case True
        with F1 F2 "1.prems" show ?thesis
          by (auto simp: ReadSlice.simps[of b delim] Let_def pending_def)
      next
        case F3: False
        with F1 F2 "1.prems" have r: "ReadSlice (fill b) delim = ((line, e), b')"
          by (simp add: ReadSlice.simps[of b delim] Let_def)
        from "1.IH"[OF refl F1 F2 F3 r] fill_props(1,2)[of b] show ?thesis by auto
      qed
    qed
  qed
qed

text \<open>
  \<open>ReadLine\<close> returns the line without its end-of-line bytes, whether the line was
  too long for the buffer, and the error.
\<close>

definition ReadLine :: "bufio_Reader \<Rightarrow> (string \<times> bool \<times> error option) \<times> bufio_Reader" where
  "ReadLine b =
     (case ReadSlice b (CHR 0x0A) of
        ((line, e), b1) \<Rightarrow>
          if e = Some ErrBufferFull then
            (if 0 < length line \<and> last line = CHR 0x0D
             then ((butlast line, True, None), b1\<lparr>buf := [CHR 0x0D]\<rparr>)
             else ((line, True, None), b1))
          else if length line = 0 then (([], False, e), b1)
          else if last line = CHR 0x0A then
            (let drop_n = (if 1 < length line \<and> line ! (length line - 2) = CHR 0x0D then 2 else 1)
             in ((take (length line - drop_n) line, False, None), b1))
          else ((line, False, None), b1))"

lemma ReadLine_props:
  assumes "ReadLine b = ((line, tooLarge, e), b')"
  shows "pending b' \<le> pending b" "bufsize b' = bufsize b"
    "e = None \<Longrightarrow> \<not> tooLarge \<Longrightarrow> pending b' < pending b"
proof -
  obtain l0 e0 b1 where rs: "ReadSlice b (CHR 0x0A) = ((l0, e0), b1)"
    by (metis prod.exhaust)
  note p = ReadSlice_props[OF rs]
  have nz: "l0 \<noteq> [] \<Longrightarrow> Suc 0 \<le> length l0" by (cases l0) auto
  show "pending b' \<le> pending b"
    using assms rs p nz by (auto simp: ReadLine_def Let_def pending_def split: if_splits)
  show "bufsize b' = bufsize b"
    using assms rs p by (auto simp: ReadLine_def Let_def split: if_splits)
  show "e = None \<Longrightarrow> \<not> tooLarge \<Longrightarrow> pending b' < pending b"
    using assms rs p nz by (auto simp: ReadLine_def Let_def pending_def split: if_splits)
qed

text \<open>\<open>Discard\<close> skips \<open>n\<close> bytes and returns how many it skipped.\<close>

function Discard_loop :: "bufio_Reader \<Rightarrow> int \<Rightarrow> int \<Rightarrow> (int \<times> error option) \<times> bufio_Reader" where
  "Discard_loop b n remain =
     (let b1 = (if length (buf b) = 0 then fill b else b);
          skip = (if remain < Buffered b1 then remain else Buffered b1);
          b2 = b1\<lparr>buf := drop (nat skip) (buf b1)\<rparr>;
          remain' = remain - skip
      in if remain' = 0 then ((n, None), b2)
         else if err b2 \<noteq> None then ((n - remain', err b2), b2\<lparr>err := None\<rparr>)
         else Discard_loop b2 n remain')"
  by pat_completeness auto
termination
proof (relation "measure (\<lambda>(b, n, remain). nat remain)")
  show "wf (measure (\<lambda>(b :: bufio_Reader, n :: int, remain :: int). nat remain))" by simp
next
  fix b :: bufio_Reader and n remain :: int and b1 skip b2 remain'
  assume b1: "b1 = (if length (buf b) = 0 then fill b else b)"
    and skip: "skip = (if remain < Buffered b1 then remain else Buffered b1)"
    and b2: "b2 = b1\<lparr>buf := drop (nat skip) (buf b1)\<rparr>"
    and r: "remain' = remain - skip" "remain' \<noteq> 0" and e: "\<not> err b2 \<noteq> None"
  have e1: "err b1 = None" using e b2 by simp
  have "0 < length (buf b1)"
  proof (cases "length (buf b) = 0")
    case True
    then show ?thesis using fill_props(4)[of b] e1 b1 by auto
  next
    case False
    then show ?thesis using b1 by simp
  qed
  then have "0 < skip" "skip < remain" using skip r by (auto simp: Buffered_def split: if_splits)
  then show "((b2, n, remain'), b, n, remain) \<in> measure (\<lambda>(b, n, remain). nat remain)"
    using r by simp
qed

declare Discard_loop.simps [simp del]

definition Discard :: "bufio_Reader \<Rightarrow> int \<Rightarrow> (int \<times> error option) \<times> bufio_Reader" where
  "Discard b n =
     (if n < 0 then ((0, Some ErrNegativeCount), b)
      else if n = 0 then ((0, None), b)
      else Discard_loop b n n)"

lemma Discard_loop_props:
  "Discard_loop b n remain = ((d, e), b') \<Longrightarrow> pending b' \<le> pending b \<and> bufsize b' = bufsize b"
proof (induction b n remain arbitrary: d e b' rule: Discard_loop.induct)
  case (1 b n remain)
  define b1 where "b1 = (if length (buf b) = 0 then fill b else b)"
  define skip where "skip = (if remain < Buffered b1 then remain else Buffered b1)"
  define b2 where "b2 = b1\<lparr>buf := drop (nat skip) (buf b1)\<rparr>"
  define remain' where "remain' = remain - skip"
  have p1: "pending b1 \<le> pending b" "bufsize b1 = bufsize b"
    using fill_props(1,2)[of b] by (auto simp: b1_def)
  have p2: "pending b2 \<le> pending b" "bufsize b2 = bufsize b"
    using p1 by (auto simp: b2_def pending_def)
  have eq: "Discard_loop b n remain =
      (if remain' = 0 then ((n, None), b2)
       else if err b2 \<noteq> None then ((n - remain', err b2), b2\<lparr>err := None\<rparr>)
       else Discard_loop b2 n remain')"
    unfolding b1_def skip_def b2_def remain'_def
    by (subst Discard_loop.simps) (simp only: Let_def)
  show ?case
  proof (cases "remain' = 0 \<or> err b2 \<noteq> None")
    case True
    with "1.prems" p2 show ?thesis
      unfolding eq by (auto simp: pending_def split: if_splits)
  next
    case False
    with "1.prems" have r: "Discard_loop b2 n remain' = ((d, e), b')"
      unfolding eq by simp
    from False "1.IH"[OF b1_def skip_def b2_def remain'_def _ _ r] p2 show ?thesis by auto
  qed
qed

lemma Discard_props:
  "Discard b n = ((d, e), b') \<Longrightarrow> pending b' \<le> pending b \<and> bufsize b' = bufsize b"
  using Discard_loop_props[of b n n d e b'] by (auto simp: Discard_def split: if_splits)


text \<open>
  \<open>Read\<close> of the buffered reader, given the length of \<open>p\<close>: bytes of the buffer
  if there are any; otherwise one read of the underlying reader, directly into \<open>p\<close>
  when \<open>p\<close> is at least as long as the buffer.
\<close>

definition bufio_Read :: "bufio_Reader \<Rightarrow> nat \<Rightarrow> (string \<times> error option) \<times> bufio_Reader" where
  "bufio_Read b lenp =
     (if lenp = 0 then
        (if 0 < Buffered b then (([], None), b) else (([], err b), b\<lparr>err := None\<rparr>))
      else if length (buf b) = 0 then
        (if err b \<noteq> None then (([], err b), b\<lparr>err := None\<rparr>)
         else if bufsize b \<le> lenp then
           (case HashingCountingReader_Read (rd b) lenp of
              ((p, e), r) \<Rightarrow> ((p, e), b\<lparr>rd := r, err := None\<rparr>))
         else
           (case HashingCountingReader_Read (rd b) (bufsize b) of
              ((p, e), r) \<Rightarrow>
                if length p = 0 then (([], e), b\<lparr>rd := r, err := None\<rparr>)
                else
                  (let n = min lenp (length p)
                   in ((take n p, None), b\<lparr>rd := r, buf := drop n p, err := e\<rparr>))))
      else
        (let n = min lenp (length (buf b))
         in ((take n (buf b), None), b\<lparr>buf := drop n (buf b)\<rparr>)))"

lemma bufio_Read_props:
  assumes "bufio_Read b lenp = ((p, e), b')"
  shows "pending b' + length p \<le> pending b" "bufsize b' = bufsize b" "length p \<le> lenp"
    "e = None \<Longrightarrow> 0 < lenp \<Longrightarrow> pending b' < pending b"
proof -
  obtain p1 e1 r1 where h1: "HashingCountingReader_Read (rd b) lenp = ((p1, e1), r1)"
    by (metis prod.exhaust)
  obtain p2 e2 r2 where h2: "HashingCountingReader_Read (rd b) (bufsize b) = ((p2, e2), r2)"
    by (metis prod.exhaust)
  note s1 = HashingCountingReader_Read_size[OF h1]
  note s2 = HashingCountingReader_Read_size[OF h2]
  have nz: "\<And>xs :: string. xs \<noteq> [] \<Longrightarrow> Suc 0 \<le> length xs"
    by (case_tac xs) auto
  show "pending b' + length p \<le> pending b"
    using assms h1 h2 s1(1) s2(1)
    by (auto simp: bufio_Read_def Let_def pending_def Buffered_def min_def split: if_splits)
  show "bufsize b' = bufsize b"
    using assms h1 h2
    by (auto simp: bufio_Read_def Let_def Buffered_def split: if_splits)
  show "length p \<le> lenp"
    using assms h1 h2 s1(2)
    by (auto simp: bufio_Read_def Let_def Buffered_def split: if_splits)
  show "e = None \<Longrightarrow> 0 < lenp \<Longrightarrow> pending b' < pending b"
  proof -
    assume e: "e = None" and l: "0 < lenp"
    show ?thesis
    proof (cases "length (buf b) = 0")
      case False
      then have "buf b \<noteq> []" by simp
      from nz[OF this] assms l show ?thesis
        by (auto simp: bufio_Read_def Let_def pending_def min_def split: if_splits)
    next
      case True
      show ?thesis
      proof (cases "bufsize b \<le> lenp")
        case T2: True
        with True assms l e h1 have eq: "p = p1" "e1 = None" "b' = b\<lparr>rd := r1, err := None\<rparr>"
          by (auto simp: bufio_Read_def Let_def split: if_splits)
        show ?thesis
        proof (cases "p1 = []")
          case True
          from s1(3)[OF eq(2) True l] eq show ?thesis by (simp add: pending_def)
        next
          case False
          from nz[OF False] s1(1) eq show ?thesis by (simp add: pending_def)
        qed
      next
        case F2: False
        then have bs: "0 < bufsize b" by simp
        show ?thesis
        proof (cases "p2 = []")
          case T3: True
          with True F2 assms l e h2 have "e2 = None" "b' = b\<lparr>rd := r2, err := None\<rparr>"
            by (auto simp: bufio_Read_def Let_def split: if_splits)
          with s2(3)[OF _ T3 bs] show ?thesis by (simp add: pending_def)
        next
          case F3: False
          with True F2 assms l e h2
          have "b' = b\<lparr>rd := r2, buf := drop (min lenp (length p2)) p2, err := e2\<rparr>"
            by (auto simp: bufio_Read_def Let_def split: if_splits)
          with nz[OF F3] s2(1) l True show ?thesis
            by (auto simp: pending_def min_def)
        qed
      qed
    qed
  qed
qed

text \<open>
  \<open>io.ReadAtLeast\<close>: the loop \<open>for n < min && err == nil\<close>; \<open>acc\<close> holds the bytes read
  so far (\<open>buf[:n]\<close>) and \<open>e\<close> the error of the last read.
\<close>

function ReadAtLeast_loop ::
  "bufio_Reader \<Rightarrow> nat \<Rightarrow> string \<Rightarrow> error option \<Rightarrow> (string \<times> error option) \<times> bufio_Reader" where
  "ReadAtLeast_loop b minimum acc e =
     (if length acc < minimum \<and> e = None then
        (case bufio_Read b (minimum - length acc) of
           ((p, e'), b') \<Rightarrow> ReadAtLeast_loop b' minimum (acc @ p) e')
      else ((acc, e), b))"
  by pat_completeness auto
termination
  apply (relation "inv_image (less_than <*lex*> less_than)
    (\<lambda>(b, minimum, acc, e). (pending b, if e = None then Suc 0 else 0))")
  subgoal by (intro wf_inv_image wf_lex_prod wf_less_than)
  subgoal for b minimum acc e x y xa ya
  proof -
    assume c: "length acc < minimum \<and> e = None"
      and x: "(x, y) = bufio_Read b (minimum - length acc)" "(xa, ya) = x"
    then have r: "bufio_Read b (minimum - length acc) = ((xa, ya), y)" by simp
    note pr = bufio_Read_props[OF r]
    show ?thesis
    proof (cases "ya = None")
      case True
      from pr(4)[OF True] c show ?thesis by simp
    next
      case False
      with pr(1) c show ?thesis by auto
    qed
  qed
  done

declare ReadAtLeast_loop.simps [simp del]

text \<open>\<open>io.ReadFull(br, p)\<close> is \<open>io.ReadAtLeast(br, p, len(p))\<close>.\<close>

definition ReadFull :: "bufio_Reader \<Rightarrow> nat \<Rightarrow> (string \<times> error option) \<times> bufio_Reader" where
  "ReadFull b len =
     (case ReadAtLeast_loop b len [] None of
        ((acc, e), b') \<Rightarrow>
          if len \<le> length acc then ((acc, None), b')
          else if 0 < length acc \<and> e = Some EOF then ((acc, Some ErrUnexpectedEOF), b')
          else ((acc, e), b'))"

lemma ReadAtLeast_loop_props:
  "ReadAtLeast_loop b minimum acc e = ((out, e'), b') \<Longrightarrow>
     pending b' \<le> pending b \<and> bufsize b' = bufsize b \<and>
     (length acc \<le> minimum \<longrightarrow> length out \<le> minimum) \<and>
     (e' = None \<longrightarrow> e = None \<and> minimum \<le> length out)"
proof (induction b minimum acc e arbitrary: out e' b' rule: ReadAtLeast_loop.induct)
  case (1 b minimum acc e)
  show ?case
  proof (cases "length acc < minimum \<and> e = None")
    case False
    with "1.prems" show ?thesis by (auto simp: ReadAtLeast_loop.simps[of b minimum acc e])
  next
    case True
    obtain p e1 b1 where r: "bufio_Read b (minimum - length acc) = ((p, e1), b1)"
      by (metis prod.exhaust)
    note pr = bufio_Read_props[OF r]
    from True r "1.prems" have rec: "ReadAtLeast_loop b1 minimum (acc @ p) e1 = ((out, e'), b')"
      by (simp add: ReadAtLeast_loop.simps[of b minimum acc])
    from "1.IH"[OF True r[symmetric] refl rec] pr True show ?thesis by auto
  qed
qed

lemma ReadFull_props:
  assumes "ReadFull b len = ((out, e), b')"
  shows "pending b' \<le> pending b" "bufsize b' = bufsize b" "e = None \<Longrightarrow> length out = len"
proof -
  obtain acc e0 b0 where r: "ReadAtLeast_loop b len [] None = ((acc, e0), b0)"
    by (metis prod.exhaust)
  note p = ReadAtLeast_loop_props[OF r]
  show "pending b' \<le> pending b" "bufsize b' = bufsize b" "e = None \<Longrightarrow> length out = len"
    using assms r p by (auto simp: ReadFull_def split: if_splits)
qed

section \<open>The parser\<close>

text \<open>
  \<open>strconv.ParseUint\<close> in base 10: the text must be one or more decimal digits (no
  sign, no underscore) and its value must fit in \<open>bitSize\<close> bits.
\<close>

definition is_digit :: "char \<Rightarrow> bool" where
  "is_digit c = ((48 :: int) \<le> of_char c \<and> of_char c \<le> (57 :: int))"

definition decimal_value :: "string \<Rightarrow> int" where
  "decimal_value s = foldl (\<lambda>n c. 10 * n + (of_char c - 48)) 0 s"

definition ParseUint :: "string \<Rightarrow> nat \<Rightarrow> error + int" where
  "ParseUint s bitSize =
     (if s = [] then Inl ErrSyntax
      else if list_all is_digit s then
        (if 2 ^ bitSize \<le> decimal_value s then Inl ErrRange else Inr (decimal_value s))
      else Inl ErrSyntax)"

definition HasPrefix :: "string \<Rightarrow> string \<Rightarrow> bool" where
  "HasPrefix s prefix = (take (length prefix) s = prefix)"

datatype field = FIELD_SUBJECT | FIELD_FROM | FIELD_TO | FIELD_TIME | FIELD_BODY | FIELD_FILE

definition fieldtab :: "string \<Rightarrow> field option" where
  "fieldtab =
     [''subject'' \<mapsto> FIELD_SUBJECT,
      ''from'' \<mapsto> FIELD_FROM,
      ''to'' \<mapsto> FIELD_TO,
      ''time'' \<mapsto> FIELD_TIME,
      ''body'' \<mapsto> FIELD_BODY,
      ''file'' \<mapsto> FIELD_FILE]"

text \<open>
  \<open>copy(dst, src)\<close> on arrays of fixed length: as many bytes as both hold are
  replaced, the rest of \<open>dst\<close> stays.
\<close>

definition copy_bytes :: "'a list \<Rightarrow> 'a list \<Rightarrow> 'a list" where
  "copy_bytes dst src = take (length dst) src @ drop (length src) dst"

text \<open>
  The cases of the \<open>switch\<close> in \<open>ParseReader\<close>. \<open>line\<close> is the header line, \<open>p\<close> the
  length of its keyword, \<open>br\<close> the buffered reader (which holds the hashing reader
  \<open>cr\<close>), \<open>m\<close> the message written to. The result is the error returned (\<open>None\<close> when
  the loop goes on), the message, the reader and the count of files.
\<close>

fun ParseReader_field ::
  "extern \<Rightarrow> string \<Rightarrow> int \<Rightarrow> int \<Rightarrow> field \<Rightarrow> string \<Rightarrow> nat \<Rightarrow> bufio_Reader \<Rightarrow> Message
     \<Rightarrow> error option \<times> Message \<times> bufio_Reader \<times> int" where
  "ParseReader_field X srcname lineno fileno FIELD_SUBJECT line p br m =
     (None, m\<lparr>msg_subject := TrimSpace X (drop p line)\<rparr>, br, fileno)"
| "ParseReader_field X srcname lineno fileno FIELD_FROM line p br m =
     (case Author_Parse X (msg_from m) (drop p line) of
        (Some e, a) \<Rightarrow> (Some (AddressError srcname lineno e line), m\<lparr>msg_from := a\<rparr>, br, fileno)
      | (None, a) \<Rightarrow> (None, m\<lparr>msg_from := a\<rparr>, br, fileno))"
| "ParseReader_field X srcname lineno fileno FIELD_TO line p br m =
     (case Author_Parse X (msg_to m) (drop p line) of
        (Some e, a) \<Rightarrow> (Some (AddressError srcname lineno e line), m\<lparr>msg_to := a\<rparr>, br, fileno)
      | (None, a) \<Rightarrow> (None, m\<lparr>msg_to := a\<rparr>, br, fileno))"
| "ParseReader_field X srcname lineno fileno FIELD_TIME line p br m =
     (let s = TrimSpace X (drop p line) in
      case time_Parse X ''2006-01-02 15:04:05 -0700'' s of
        Some t \<Rightarrow> (None, m\<lparr>msg_time := t\<rparr>, br, fileno)
      | None \<Rightarrow>
          (case time_Parse X ''2006-01-02 15:04:05'' s of
             Some t \<Rightarrow> (None, m\<lparr>msg_time := t\<rparr>, br, fileno)
           | None \<Rightarrow> (Some (InvalidTimeFormat s), m, br, fileno)))"
| "ParseReader_field X srcname lineno fileno FIELD_BODY line p br m =
     (case ParseUint (TrimSpace X (drop p line)) 64 of
        Inl e \<Rightarrow> (Some (InvalidIntegerSize srcname lineno (drop p line)), m, br, fileno)
      | Inr size' \<Rightarrow>
          if MAX_BODY_SIZE < size' then (Some (BodyTooLarge srcname lineno size'), m, br, fileno)
          else
            (case ReadFull br (nat size') of
               ((data, e), br1) \<Rightarrow>
                 if e \<noteq> None then (e, m\<lparr>msg_body := []\<rparr>, br1, fileno)
                 else if int (length data) \<noteq> size'
                 then (Some (InvalidBodySize srcname lineno size'), m\<lparr>msg_body := []\<rparr>, br1, fileno)
                 else (None, m\<lparr>msg_body := data\<rparr>, br1, fileno)))"
| "ParseReader_field X srcname lineno fileno FIELD_FILE line p br m =
     (let fileno1 = fileno + 1;
          line1 = TrimSpace X (drop p line);
          p1 = IndexByte line1 (CHR '' '');
          fname = (if p1 \<noteq> - 1 then TrimSpace X (drop (nat p1) line1) else []);
          line2 = (if p1 \<noteq> - 1 then take (nat p1) line1 else line1)
      in case ParseUint line2 64 of
           Inl e \<Rightarrow>
             (if length line2 < p then (Some Panic, m, br, fileno1)
              else (Some (InvalidIntegerSize srcname lineno (drop p line2)), m, br, fileno1))
         | Inr size64 \<Rightarrow>
             (let size' = wrap_int64 size64;
                  start = nread (rd br) - Buffered br
              in case Discard br size' of
                   ((discarded, e), br1) \<Rightarrow>
                     if discarded < size'
                     then (Some (InvalidFileSize srcname lineno fileno1 fname size'), m, br1, fileno1)
                     else if e \<noteq> None then (e, m, br1, fileno1)
                     else (None,
                           m\<lparr>msg_files := msg_files m @
                               [\<lparr>file_name = fname, dataStart = start, dataLen = size'\<rparr>]\<rparr>,
                           br1, fileno1)))"

text \<open>The body of the loop of \<open>ParseReader\<close> once a line has been read.\<close>

definition ParseReader_line ::
  "extern \<Rightarrow> string \<Rightarrow> int \<Rightarrow> int \<Rightarrow> string \<Rightarrow> bufio_Reader \<Rightarrow> Message
     \<Rightarrow> error option \<times> Message \<times> bufio_Reader \<times> int" where
  "ParseReader_line X srcname lineno fileno line br m =
     (let p = IndexByte line (CHR '' '') in
      if p = 0 then (Some (InvalidLeadingSpace srcname lineno), m, br, fileno)
      else if p = - 1 \<and> length line = 0 then (None, m, br, fileno)
      else
        (let p' = (if p = - 1 then int (length line) else p);
             key = take (nat p') line
         in case fieldtab key of
              None \<Rightarrow>
                if HasPrefix key ''x-'' then (None, m, br, fileno)
                else (Some (UnknownField srcname lineno key), m, br, fileno)
            | Some field \<Rightarrow> ParseReader_field X srcname lineno fileno field line (nat p') br m))"

lemma ParseReader_field_props:
  "ParseReader_field X srcname lineno fileno f line p br m = (e, m', br', fileno') \<Longrightarrow>
     pending br' \<le> pending br \<and> bufsize br' = bufsize br"
proof (cases f)
  case FIELD_BODY
  assume a: "ParseReader_field X srcname lineno fileno f line p br m = (e, m', br', fileno')"
  show ?thesis
  proof (cases "ParseUint (TrimSpace X (drop p line)) 64")
    case (Inl x)
    with a FIELD_BODY show ?thesis by simp
  next
    case (Inr size)
    obtain data e1 br1 where r: "ReadFull br (nat size) = ((data, e1), br1)" by (metis prod.exhaust)
    from ReadFull_props(1,2)[OF r] a FIELD_BODY Inr r show ?thesis
      by (auto split: if_splits)
  qed
next
  case FIELD_FILE
  assume a: "ParseReader_field X srcname lineno fileno f line p br m = (e, m', br', fileno')"
  define line1 where "line1 = TrimSpace X (drop p line)"
  define line2 where "line2 = (if IndexByte line1 (CHR '' '') \<noteq> - 1
       then take (nat (IndexByte line1 (CHR '' ''))) line1 else line1)"
  show ?thesis
  proof (cases "ParseUint line2 64")
    case (Inl x)
    with a FIELD_FILE show ?thesis
      by (auto simp: Let_def line1_def line2_def split: if_splits)
  next
    case (Inr size64)
    obtain d e1 br1 where r: "Discard br (wrap_int64 size64) = ((d, e1), br1)"
      by (metis prod.exhaust)
    from Discard_props[OF r] a FIELD_FILE Inr r show ?thesis
      by (auto simp: Let_def line1_def line2_def split: if_splits)
  qed
qed (auto simp: Let_def split: option.splits prod.splits)

lemma ParseReader_line_props:
  "ParseReader_line X srcname lineno fileno line br m = (e, m', br', fileno') \<Longrightarrow>
     pending br' \<le> pending br \<and> bufsize br' = bufsize br"
  using ParseReader_field_props
  by (fastforce simp: ParseReader_line_def Let_def split: if_splits option.splits)

function ParseReader_loop ::
  "extern \<Rightarrow> string \<Rightarrow> bufio_Reader \<Rightarrow> Message \<Rightarrow> int \<Rightarrow> int
     \<Rightarrow> error option \<times> Message \<times> bufio_Reader" where
  "ParseReader_loop X srcname br m lineno fileno =
     (let lineno' = lineno + 1 in
      case ReadLine br of
        ((line, tooLargeForBuffer, e), br1) \<Rightarrow>
          if e \<noteq> None then (if e = Some EOF then (None, m, br1) else (e, m, br1))
          else if tooLargeForBuffer then (Some (FieldTooLong srcname lineno'), m, br1)
          else
            (case ParseReader_line X srcname lineno' fileno line br1 m of
               (Some e', m', br2, fileno') \<Rightarrow> (Some e', m', br2)
             | (None, m', br2, fileno') \<Rightarrow> ParseReader_loop X srcname br2 m' lineno' fileno'))"
  by pat_completeness auto
termination
  apply (relation "measure (\<lambda>(X, srcname, br, m, lineno, fileno). pending br)")
  subgoal by simp
  subgoal for X srcname br m lineno fileno x xa y xb ya xaa yb xab yaa xac yc xad yd
  proof -
    assume rl: "(xa, y) = ReadLine br" "(xb, ya) = xa" "(xaa, yb) = ya" "\<not> yb \<noteq> None" "\<not> xaa"
      and pl: "(xab, yaa) = ParseReader_line X srcname x fileno xb y m" "xab = None"
        "(xac, yc) = yaa" "(xad, yd) = yc"
    from rl have r: "ReadLine br = ((xb, False, None), y)" by auto
    from pl have l: "ParseReader_line X srcname x fileno xb y m = (None, xac, xad, yd)"
      by auto
    from ReadLine_props(3)[OF r] ParseReader_line_props[OF l] show ?thesis by simp
  qed
  done

declare ParseReader_loop.simps [simp del]

text \<open>
  \<open>ParseReader_parse\<close> is \<open>ParseReader\<close> up to the end of its loop, with the reader as
  the loop leaves it; \<open>ParseReader\<close> then takes the digest and writes the id.
\<close>

definition ParseReader_parse ::
  "extern \<Rightarrow> Message \<Rightarrow> Reader \<Rightarrow> int \<Rightarrow> string \<Rightarrow> error option \<times> Message \<times> bufio_Reader" where
  "ParseReader_parse X m r srcsize srcname =
     (let bufsize = ParseReader_bufsize srcsize;
          cr = MakeSHA256HashingCountingReader r;
          br = NewReaderSize cr bufsize
      in ParseReader_loop X srcname br m 0 0)"

definition ParseReader ::
  "extern \<Rightarrow> Message \<Rightarrow> Reader \<Rightarrow> int \<Rightarrow> string \<Rightarrow> error option \<times> Message" where
  "ParseReader X m r srcsize srcname =
     (case ParseReader_parse X m r srcsize srcname of
        (Some e, m1, br1) \<Rightarrow> (Some e, m1)
      | (None, m1, br1) \<Rightarrow>
          (let buf32 = sha256_Sum X (hash (rd br1));
               m2 = m1\<lparr>msg_id := take 4 (msg_id m1) @ copy_bytes (drop 4 (msg_id m1)) (take 20 buf32)\<rparr>
           in UpdateIdFromTime m2))"

text \<open>
  An instance of the library parameters for runs on ASCII text, on which the Unicode
  functions are never called. The digest and the parser of times are placeholders: no
  statement below depends on what they return.
\<close>

definition ascii_extern :: extern where
  "ascii_extern =
     \<lparr>nfc = (\<lambda>s. s), unicode_lower = (\<lambda>s. s), unicode_trim = (\<lambda>s. s),
      time_Parse = (\<lambda>layout s. None), sha256_Sum = (\<lambda>s. replicate 32 0)\<rparr>"

text \<open>The keyword of a header line: the bytes before its first space.\<close>

definition keyword :: "string \<Rightarrow> string" where
  "keyword line = takeWhile (\<lambda>c. c \<noteq> CHR '' '') line"

text \<open>A buffered reader with a 64-byte buffer over a byte source, for the examples.\<close>

definition reader_of :: "Reader \<Rightarrow> bufio_Reader" where
  "reader_of r = NewReaderSize (MakeSHA256HashingCountingReader r) 64"

section \<open>Positions in the stream\<close>

text \<open>
  Notions used to state what the parser does on well-behaved byte sources. A source is
  \<open>unmixed\<close> when none of its results carries both bytes and an error, and
  \<open>error_free\<close> when none of its results carries an error (it ends by running out,
  and reports \<open>io.EOF\<close> from then on). \<open>remaining\<close> is the bytes a source has yet to
  deliver.
\<close>

definition unmixed :: "Reader \<Rightarrow> bool" where
  "unmixed r = list_all (\<lambda>(d, e). e = None \<or> d = []) r"

definition error_free :: "Reader \<Rightarrow> bool" where
  "error_free r = list_all (\<lambda>(d, e). e = None) r"

definition remaining :: "Reader \<Rightarrow> string" where
  "remaining r = concat (map fst r)"

text \<open>
  \<open>pos\<close> is the expression \<open>cr.nread - br.Buffered()\<close> that \<open>ParseReader\<close> stores as
  the start of an attachment; \<open>stream\<close> is the bytes hashed so far followed by the bytes
  yet to come. \<open>follows b b' n\<close> says that \<open>b'\<close> is \<open>b\<close> after \<open>n\<close> bytes were consumed,
  over the same stream. \<open>settled\<close> says that a buffered reader which has met the end
  of an error-free source has nothing left to draw from it.
\<close>

definition pos :: "bufio_Reader \<Rightarrow> int" where
  "pos b = nread (rd b) - Buffered b"

definition stream :: "bufio_Reader \<Rightarrow> string" where
  "stream b = hash (rd b) @ remaining (Reader (rd b))"

definition follows :: "bufio_Reader \<Rightarrow> bufio_Reader \<Rightarrow> nat \<Rightarrow> bool" where
  "follows b b' n \<longleftrightarrow>
     unmixed (Reader (rd b')) \<and> pos b' = pos b + int n \<and> stream b' = stream b"

definition settled :: "bufio_Reader \<Rightarrow> bool" where
  "settled b \<longleftrightarrow> error_free (Reader (rd b)) \<and> (err b = Some EOF \<longrightarrow> Reader (rd b) = [])"

text \<open>
  The attachments \<open>fs\<close> are in order up to position \<open>p\<close>: their starts increase
  strictly, their lengths are not negative and each ends at or before \<open>p\<close>.
\<close>

definition offsets_ok :: "Attachment list \<Rightarrow> int \<Rightarrow> bool" where
  "offsets_ok fs p \<longleftrightarrow>
     sorted_wrt (<) (map dataStart fs) \<and>
     list_all (\<lambda>f. 0 \<le> dataLen f \<and> dataStart f + dataLen f \<le> p) fs"

section \<open>Properties of the identifier\<close>

text \<open>
  Claim C1. \<open>IdString\<close> should return the base-62 digits of the id after a single
  \<open>'0'\<close> and nothing else. For the id whose last byte is 200 and whose other bytes are
  zero the digits are \<open>3E\<close> (200 = 3 * 62 + 14); the program returns four bytes, the
  first of which is the zero byte that \<open>buf\<close> held at index \<open>n-1\<close>, which
  \<open>EncodeId\<close> never wrote.
\<close>

theorem IdString_extra_leading_byte:
  "IdString (zero_Message\<lparr>msg_id := replicate 23 0 @ [200]\<rparr>) =
     Inr [CHR 0x00, CHR ''0'', CHR ''3'', CHR ''E'']"
  by code_simp

lemma UpdateIdFromTime_error:
  "fst (UpdateIdFromTime m) =
     (if msg_time m < idEpochBase then Some (TimestampInPast (msg_time m)) else None)"
  by (simp add: UpdateIdFromTime_def Let_def)

lemma be32_bytes:
  "be32 (ucast (drop_bit 24 sec)) (ucast (drop_bit 16 sec)) (ucast (drop_bit 8 sec)) (ucast sec) = sec"
proof (rule bit_word_eqI)
  fix n assume "n < LENGTH(32)"
  then consider "n < 8" | "8 \<le> n" "n < 16" | "16 \<le> n" "n < 24" | "24 \<le> n" "n < 32"
    by fastforce
  then show "bit (be32 (ucast (drop_bit 24 sec)) (ucast (drop_bit 16 sec))
                   (ucast (drop_bit 8 sec)) (ucast sec)) n = bit sec n"
    unfolding be32_def by cases (auto simp: bit_simps)
qed

lemma UpdateIdFromTime_writes:
  assumes "4 \<le> length (msg_id m)" "idEpochBase \<le> msg_time m"
  shows "IdTimestamp (snd (UpdateIdFromTime m)) = word_of_int (msg_time m - idEpochBase)"
proof -
  from assms(1) have "0 < length (msg_id m)" "Suc 0 < length (msg_id m)"
    "2 < length (msg_id m)" "3 < length (msg_id m)" by linarith+
  then show ?thesis
    using assms(2)
    by (simp add: UpdateIdFromTime_def Let_def IdTimestamp_def nth_list_update be32_bytes)
qed

lemma UpdateIdFromTime_in_range:
  assumes "4 \<le> length (msg_id m)" "idEpochBase \<le> msg_time m" "msg_time m < idEpochBase + 2 ^ 32"
  shows "IdTime (snd (UpdateIdFromTime m)) = msg_time m"
proof -
  define x where "x = msg_time m - idEpochBase"
  have "0 \<le> x" "x < 2 ^ 32" using assms by (simp_all add: x_def)
  then have "uint (word_of_int x :: 32 word) = x"
    by (simp add: uint_word_of_int_eq take_bit_int_eq_self)
  then show ?thesis
    unfolding IdTime_def UpdateIdFromTime_writes[OF assms(1,2)] x_def by simp
qed

text \<open>
  Claim C4. A time before the epoch base is refused (\<open>UpdateIdFromTime_error\<close>) and a
  time within the 32-bit range is written so that \<open>IdTime\<close> reads it back
  (\<open>UpdateIdFromTime_in_range\<close>). A time past 2156-10-20T18:54:55Z should be refused
  as out of range; the program accepts it. At Unix time 5894967296, one second past that
  moment, it returns no error and writes the four bytes it writes for the epoch base
  itself, so the id reads back as 2020-09-13T12:26:40Z.
\<close>

theorem UpdateIdFromTime_past_range_accepted:
  "fst (UpdateIdFromTime (zero_Message\<lparr>msg_time := 5894967296\<rparr>)) = None \<and>
   IdTime (snd (UpdateIdFromTime (zero_Message\<lparr>msg_time := 5894967296\<rparr>))) = 1600000000 \<and>
   msg_id (snd (UpdateIdFromTime (zero_Message\<lparr>msg_time := 5894967296\<rparr>))) =
   msg_id (snd (UpdateIdFromTime (zero_Message\<lparr>msg_time := 1600000000\<rparr>)))"
  by code_simp

section \<open>Properties of address normalization\<close>

lemma normalizeAndValidateAddress_eq:
  "normalizeAndValidateAddress X raw =
     (if CHR ''@'' \<in> set (ToLower X (NFC_String X raw))
      then Inr (ToLower X (NFC_String X raw)) else Inl InvalidAddress)"
  by (simp add: normalizeAndValidateAddress_def Let_def IndexByte_minus1)

text \<open>
  Claim C6, as stated, asks for exactly one \<open>'@'\<close> in every address produced. The
  program only looks for the first one: \<open>a@b@c\<close> is accepted and stored with two.
\<close>

theorem address_two_separators_accepted:
  "normalizeAndValidateAddress ascii_extern ''a@b@c'' = Inr ''a@b@c'' \<and>
   count_list ''a@b@c'' (CHR ''@'') = 2"
  by code_simp

text \<open>
  Claim C6, amended. Normalization is NFC composition followed by lower-casing; it
  fails with the invalid-address error exactly when the result holds no \<open>'@'\<close>, and
  returns the result otherwise. Every address that \<open>Author.Parse\<close> stores without
  error holds at least one \<open>'@'\<close>.
\<close>

theorem address_has_separator:
  "normalizeAndValidateAddress X raw =
     (if CHR ''@'' \<in> set (ToLower X (NFC_String X raw))
      then Inr (ToLower X (NFC_String X raw)) else Inl InvalidAddress) \<and>
   (fst (Author_Parse X a line) = None \<longrightarrow>
      CHR ''@'' \<in> set (address (snd (Author_Parse X a line))))"
  by (auto simp: Author_Parse_def Let_def normalizeAndValidateAddress_eq split: if_splits)

theorem address_has_separator_witness:
  "fst (Author_Parse ascii_extern \<lparr>address = [], name = []\<rparr> '' Robin@Address Robin Smith'') = None \<and>
   snd (Author_Parse ascii_extern \<lparr>address = [], name = []\<rparr> '' Robin@Address Robin Smith'') =
     \<lparr>address = ''robin@address'', name = ''Robin Smith''\<rparr> \<and>
   CHR ''@'' \<in> set (address (snd (Author_Parse ascii_extern \<lparr>address = [], name = []\<rparr>
      '' Robin@Address Robin Smith'')))"
proof -
  have e: "Author_Parse ascii_extern \<lparr>address = [], name = []\<rparr> '' Robin@Address Robin Smith'' =
      (None, \<lparr>address = ''robin@address'', name = ''Robin Smith''\<rparr>)"
    by code_simp
  from e have n: "fst (Author_Parse ascii_extern \<lparr>address = [], name = []\<rparr>
      '' Robin@Address Robin Smith'') = None" by simp
  from address_has_separator[of ascii_extern "[]" "\<lparr>address = [], name = []\<rparr>"
      "'' Robin@Address Robin Smith''"] n
  have "CHR ''@'' \<in> set (address (snd (Author_Parse ascii_extern \<lparr>address = [], name = []\<rparr>
      '' Robin@Address Robin Smith'')))" by blast
  with n e show ?thesis by simp
qed

section \<open>Properties of the read buffer size\<close>

lemma Len64_0: "Len64 0 = 0"
  by (simp add: Len64.simps[of 0])

lemma Len64_pos: "0 < n \<Longrightarrow> Len64 n = Suc (Len64 (n div 2))"
  by (simp add: Len64.simps[of n])

lemma Len64_bounds: "0 < n \<Longrightarrow> 2 ^ (Len64 n - 1) \<le> n \<and> n < 2 ^ Len64 n"
proof (induction n rule: Len64.induct)
  case (1 x)
  show ?case
  proof (cases "x div 2 = 0")
    case True
    with 1 have "x = 1" by (simp add: div_eq_0_iff)
    then show ?thesis by (simp add: Len64_pos Len64_0)
  next
    case False
    with 1 have IH: "2 ^ (Len64 (x div 2) - 1) \<le> x div 2 \<and> x div 2 < 2 ^ Len64 (x div 2)" by simp
    have pos: "Len64 (x div 2) > 0" using False by (simp add: Len64_pos)
    have L: "Len64 x = Suc (Len64 (x div 2))" using 1 by (simp add: Len64_pos)
    from pos obtain k where k: "Len64 (x div 2) = Suc k" by (cases "Len64 (x div 2)") auto
    have a: "2 ^ k \<le> x div 2" and b: "x div 2 < 2 ^ Suc k" using IH k by auto
    have "2 * 2 ^ k \<le> x" using a by linarith
    moreover have "x < 2 * 2 ^ Suc k" using b by linarith
    ultimately show ?thesis unfolding L k by simp
  qed
qed

lemma Len64_le_64: "n < 2 ^ 64 \<Longrightarrow> Len64 n \<le> 64"
proof (cases "n = 0")
  case True
  then show ?thesis by (simp add: Len64_0)
next
  case False
  assume "n < 2 ^ 64"
  with False Len64_bounds[of n] have h: "(2::nat) ^ (Len64 n - 1) < 2 ^ 64" by simp
  have "Len64 n - 1 < 64" by (rule power_less_imp_less_exp[OF _ h]) simp
  then show ?thesis by simp
qed

lemma ilog2_floor:
  assumes "1 < n" "n < 2 ^ 64"
  shows "0 \<le> ilog2 n \<and> 2 ^ nat (ilog2 n) \<le> n \<and> n < 2 * 2 ^ nat (ilog2 n)"
proof -
  have L: "Len64 n \<le> 64" using assms Len64_le_64 by simp
  have pos: "0 < Len64 n" using assms by (simp add: Len64_pos)
  have eq: "ilog2 n = int (Len64 n) - 1"
    using assms L by (simp add: ilog2_def LeadingZeros64_def)
  then have nat_eq: "nat (ilog2 n) = Len64 n - 1" by simp
  from pos obtain k where k: "Len64 n = Suc k" by (cases "Len64 n") auto
  have "2 ^ (Len64 n - 1) \<le> n \<and> n < 2 ^ Len64 n" using Len64_bounds[of n] assms by simp
  then show ?thesis using eq k nat_eq by simp
qed

text \<open>
  Claim C7, as stated, has the buffer size equal to the hint rounded down to a power of
  two. The program rounds the hint plus one: for the hint 7 it asks for 8 bytes, more
  than the hint.
\<close>

theorem bufsize_exceeds_hint:
  "ParseReader_bufsize 7 = 8 \<and> \<not> ParseReader_bufsize 7 \<le> min 7 4096"
  by code_simp

text \<open>
  Claim C7, amended. For a size hint from 1 up to the largest \<open>int\<close> but one, the size
  computed is the hint plus one (one byte for the final read at the end of the input),
  capped at 4096 and then rounded down to a power of two; for the hint 0 it is 2.
  \<open>ParseReader\<close> uses the hint for this size only: two hints that give the same
  size give the same parse.
\<close>

theorem bufsize_rounds_hint_plus_one:
  assumes "0 \<le> srcsize" "srcsize < 2 ^ 63 - 1"
  shows "(srcsize = 0 \<longrightarrow> ParseReader_bufsize srcsize = 2) \<and>
         (1 \<le> srcsize \<longrightarrow>
            (\<exists>k. ParseReader_bufsize srcsize = 2 ^ k \<and>
                 2 ^ k \<le> min (srcsize + 1) 4096 \<and> min (srcsize + 1) 4096 < 2 ^ (k + 1))) \<and>
         (ParseReader_bufsize srcsize' = ParseReader_bufsize srcsize \<longrightarrow>
            ParseReader X m r srcsize' srcname = ParseReader X m r srcsize srcname)"
proof (intro conjI impI)
  assume "ParseReader_bufsize srcsize' = ParseReader_bufsize srcsize"
  then show "ParseReader X m r srcsize' srcname = ParseReader X m r srcsize srcname"
    by (simp add: ParseReader_def ParseReader_parse_def)
next
  assume "srcsize = 0"
  moreover have "ParseReader_bufsize 0 = 2" by code_simp
  ultimately show "ParseReader_bufsize srcsize = 2" by simp
next
  assume one: "1 \<le> srcsize"
  define b where "b = min (srcsize + 1) 4096"
  have w: "wrap_int64 (srcsize + 1) = srcsize + 1"
    using assms one by (simp add: wrap_int64_def)
  have b_range: "2 \<le> b" "b \<le> 4096" using one by (auto simp: b_def)
  have u: "to_uint64 b = nat b" using b_range by (simp add: to_uint64_def)
  have c: "(if srcsize + 1 > 4096 then 4096 else srcsize + 1) = b"
    by (simp add: b_def min_def)
  have bs: "ParseReader_bufsize srcsize = wrap_int64 (2 ^ nat (ilog2 (nat b)))"
    unfolding ParseReader_bufsize_def Let_def w c u ..
  have nb: "1 < nat b" "nat b < 2 ^ 64" using b_range by auto
  define k where "k = nat (ilog2 (nat b))"
  from ilog2_floor[OF nb] have fl: "2 ^ k \<le> nat b" "nat b < 2 * 2 ^ k" by (simp_all add: k_def)
  have "nat b \<le> 4096" using b_range by simp
  with fl(1) have "(2::nat) ^ k \<le> 4096" by linarith
  then have h12: "(2::nat) ^ k \<le> 2 ^ 12" by simp
  have k12: "k \<le> 12" by (rule power_le_imp_le_exp[OF _ h12]) simp
  have "(2::int) ^ k \<le> 2 ^ 12" using k12 by (intro power_increasing) auto
  then have small: "(2::int) ^ k \<le> 4096" by simp
  have pos: "(0::int) < 2 ^ k" by simp
  have wr: "wrap_int64 (2 ^ k) = 2 ^ k" using small pos by (simp add: wrap_int64_def)
  have i1: "(2::int) ^ k \<le> b"
  proof -
    have "int (2 ^ k) \<le> int (nat b)" using fl(1) by (simp only: of_nat_le_iff)
    then show ?thesis using b_range by simp
  qed
  have i2: "b < 2 ^ (k + 1)"
  proof -
    have "int (nat b) < int (2 * 2 ^ k)" using fl(2) by (simp only: of_nat_less_iff)
    then show ?thesis using b_range by simp
  qed
  have e: "ParseReader_bufsize srcsize = 2 ^ k" using bs wr by (simp add: k_def)
  from e i1 i2
  show "\<exists>k. ParseReader_bufsize srcsize = 2 ^ k \<and>
            2 ^ k \<le> min (srcsize + 1) 4096 \<and> min (srcsize + 1) 4096 < 2 ^ (k + 1)"
    unfolding b_def[symmetric] by (intro exI[of _ k]) simp
qed

theorem bufsize_rounds_hint_plus_one_witness:
  "ParseReader_bufsize 20 = 16 \<and>
   (\<exists>k. ParseReader_bufsize 20 = 2 ^ k \<and>
        2 ^ k \<le> min (20 + 1) (4096 :: int) \<and> min (20 + 1) (4096 :: int) < 2 ^ (k + 1))"
proof -
  have v: "ParseReader_bufsize 20 = 16" by code_simp
  from bufsize_rounds_hint_plus_one[of 20] v show ?thesis by simp
qed

section \<open>Properties of the hashing, counting reader\<close>

lemma HashingCountingReader_Read_no_error:
  assumes "Reader_Read (Reader r) lenp = ((p, None), src)"
  shows "HashingCountingReader_Read r lenp =
           ((p, None), r\<lparr>Reader := src, nread := nread r + int (length p), hash := hash r @ p\<rparr>)"
  using assms by (simp add: HashingCountingReader_Read_def)

text \<open>
  Claim C2. Every read should count and hash the bytes it hands to its caller, also
  when the same read reports an error or the end of the stream. A read without error
  does (\<open>HashingCountingReader_Read_no_error\<close>). When the source delivers the three
  bytes \<open>abc\<close> together with \<open>io.EOF\<close>, the wrapper returns the three bytes and the
  error to its caller, and leaves the counter at 0 and the digest without input.
\<close>

theorem HashingCountingReader_Read_with_error_uncounted:
  "HashingCountingReader_Read (MakeSHA256HashingCountingReader [(''abc'', Some EOF)]) 16 =
     ((''abc'', Some EOF), \<lparr>Reader = [], nread = 0, hash = []\<rparr>)"
  by (simp add: HashingCountingReader_Read_def MakeSHA256HashingCountingReader_def)

section \<open>Properties of the parser\<close>

lemma take_IndexByte:
  "c \<in> set s \<Longrightarrow> take (nat (IndexByte s c)) s = takeWhile (\<lambda>x. x \<noteq> c) s"
proof (induction s)
  case Nil
  then show ?case by simp
next
  case (Cons x xs)
  show ?case
  proof (cases "x = c")
    case True
    then show ?thesis by simp
  next
    case False
    with Cons.prems have in_xs: "c \<in> set xs" by simp
    then have "IndexByte xs c \<noteq> - 1" by (simp add: IndexByte_minus1)
    moreover have "- 1 \<le> IndexByte xs c" by (rule IndexByte_ge)
    ultimately have nn: "0 \<le> IndexByte xs c" by linarith
    then have "nat (IndexByte xs c + 1) = Suc (nat (IndexByte xs c))" by simp
    then show ?thesis using False Cons.IH[OF in_xs] \<open>IndexByte xs c \<noteq> - 1\<close>
      by (simp add: Let_def)
  qed
qed

lemma length_takeWhile_neq:
  "c \<in> set s \<Longrightarrow> length (takeWhile (\<lambda>x. x \<noteq> c) s) < length s"
  by (induction s) auto

lemma IndexByte_0: "IndexByte s c = 0 \<longleftrightarrow> s \<noteq> [] \<and> hd s = c"
proof (cases s)
  case Nil
  then show ?thesis by simp
next
  case (Cons x xs)
  have "- 1 \<le> IndexByte xs c" by (rule IndexByte_ge)
  then show ?thesis using Cons by (auto simp: Let_def)
qed

lemma ParseReader_line_dispatch:
  assumes "line \<noteq> []" "hd line \<noteq> CHR '' ''"
  shows "ParseReader_line X srcname lineno fileno line br m =
     (case fieldtab (keyword line) of
        None \<Rightarrow>
          if HasPrefix (keyword line) ''x-'' then (None, m, br, fileno)
          else (Some (UnknownField srcname lineno (keyword line)), m, br, fileno)
      | Some field \<Rightarrow>
          ParseReader_field X srcname lineno fileno field line (length (keyword line)) br m)"
proof -
  define p where "p = IndexByte line (CHR '' '')"
  have p0: "p \<noteq> 0" using assms by (simp add: p_def IndexByte_0)
  show ?thesis
  proof (cases "p = - 1")
    case True
    then have "CHR '' '' \<notin> set line" by (simp add: p_def IndexByte_minus1)
    then have k: "keyword line = line" by (auto simp: keyword_def)
    show ?thesis
      using True assms(1) p0 unfolding ParseReader_line_def p_def[symmetric] Let_def k
      by (simp split: option.splits)
  next
    case False
    then have in_l: "CHR '' '' \<in> set line" by (simp add: p_def IndexByte_minus1)
    have k: "take (nat p) line = keyword line"
      unfolding p_def keyword_def by (rule take_IndexByte[OF in_l])
    have "- 1 \<le> p" unfolding p_def by (rule IndexByte_ge)
    with False p0 have pp: "0 < p" by linarith
    have "length (keyword line) = min (length line) (nat p)"
      unfolding k[symmetric] by simp
    moreover have "length (keyword line) < length line"
      unfolding keyword_def by (rule length_takeWhile_neq[OF in_l])
    ultimately have l: "nat p = length (keyword line)" by (simp add: min_def split: if_splits)
    have k2: "take (length (keyword line)) line = keyword line" using k l by simp
    show ?thesis
      using False p0 unfolding ParseReader_line_def p_def[symmetric] Let_def
      by (simp add: l k2 split: option.splits)
  qed
qed

lemma fieldtab_None:
  "fieldtab k = None \<longleftrightarrow>
     k \<notin> set [''subject'', ''from'', ''to'', ''time'', ''body'', ''file'']"
  by (auto simp: fieldtab_def)

lemma ParseReader_loop_step:
  assumes "ReadLine br = ((line, False, None), br1)"
  shows "ParseReader_loop X srcname br m lineno fileno =
     (case ParseReader_line X srcname (lineno + 1) fileno line br1 m of
        (Some e', m', br2, fileno') \<Rightarrow> (Some e', m', br2)
      | (None, m', br2, fileno') \<Rightarrow> ParseReader_loop X srcname br2 m' (lineno + 1) fileno')"
  by (subst ParseReader_loop.simps) (simp add: assms Let_def)

lemma ParseReader_error:
  "ParseReader_parse X m r srcsize srcname = (Some e, m1, br1) \<Longrightarrow>
     ParseReader X m r srcsize srcname = (Some e, m1)"
  by (simp add: ParseReader_def)

text \<open>
  Claim C8. A header line is a line that is not empty and does not begin with a space;
  its keyword is the text before the first space. When the loop of \<open>ParseReader\<close>
  reads such a line and the keyword is none of \<open>subject\<close>, \<open>from\<close>, \<open>to\<close>,
  \<open>time\<close>, \<open>body\<close>, \<open>file\<close>: if the keyword does not begin with \<open>x-\<close> the parse
  returns the unknown-field error, with the message as it was; if it begins with
  \<open>x-\<close> the loop goes on with the next line, the message and the count of files
  unchanged.
\<close>

theorem unknown_field_refused_or_skipped:
  assumes "ReadLine br = ((line, False, None), br1)"
    and "line \<noteq> []" "hd line \<noteq> CHR '' ''"
    and "keyword line \<notin> set [''subject'', ''from'', ''to'', ''time'', ''body'', ''file'']"
  shows "(\<not> HasPrefix (keyword line) ''x-'' \<longrightarrow>
            ParseReader_loop X srcname br m lineno fileno =
              (Some (UnknownField srcname (lineno + 1) (keyword line)), m, br1)) \<and>
         (HasPrefix (keyword line) ''x-'' \<longrightarrow>
            ParseReader_loop X srcname br m lineno fileno =
              ParseReader_loop X srcname br1 m (lineno + 1) fileno)"
proof -
  have n: "fieldtab (keyword line) = None"
    using assms(4) fieldtab_None[of "keyword line"] by blast
  have l: "ParseReader_line X srcname (lineno + 1) fileno line br1 m =
      (if HasPrefix (keyword line) ''x-'' then (None, m, br1, fileno)
       else (Some (UnknownField srcname (lineno + 1) (keyword line)), m, br1, fileno))"
    using ParseReader_line_dispatch[OF assms(2,3), of X srcname "lineno + 1" fileno br1 m] n
    by simp
  show ?thesis
    using ParseReader_loop_step[OF assms(1), of X srcname m lineno fileno] l by simp
qed

theorem unknown_field_refused_or_skipped_witness:
  "ParseReader_loop ascii_extern ''msg'' (reader_of [(''color red\<newline>'', None)]) zero_Message 0 0 =
     (Some (UnknownField ''msg'' 1 ''color''), zero_Message,
      \<lparr>buf = [], bufsize = 64,
       rd = \<lparr>Reader = [], nread = 10, hash = ''color red\<newline>''\<rparr>, err = None\<rparr>) \<and>
   ParseReader_loop ascii_extern ''msg''
       (reader_of [(''x-color red\<newline>subject a\<newline>'', None)]) zero_Message 0 0 =
     ParseReader_loop ascii_extern ''msg''
       \<lparr>buf = ''subject a\<newline>'', bufsize = 64,
        rd = \<lparr>Reader = [], nread = 22, hash = ''x-color red\<newline>subject a\<newline>''\<rparr>,
        err = None\<rparr> zero_Message 1 0"
proof -
  have r1: "ReadLine (reader_of [(''color red\<newline>'', None)]) =
      ((''color red'', False, None),
       \<lparr>buf = [], bufsize = 64,
        rd = \<lparr>Reader = [], nread = 10, hash = ''color red\<newline>''\<rparr>, err = None\<rparr>)"
    by code_simp
  have k1: "keyword ''color red'' = ''color''" by code_simp
  have n1: "keyword ''color red'' \<notin> set [''subject'', ''from'', ''to'', ''time'', ''body'', ''file'']"
    unfolding k1 by simp
  have p1: "\<not> HasPrefix (keyword ''color red'') ''x-''" unfolding k1 by (simp add: HasPrefix_def)
  have r2: "ReadLine (reader_of [(''x-color red\<newline>subject a\<newline>'', None)]) =
      ((''x-color red'', False, None),
       \<lparr>buf = ''subject a\<newline>'', bufsize = 64,
        rd = \<lparr>Reader = [], nread = 22, hash = ''x-color red\<newline>subject a\<newline>''\<rparr>,
        err = None\<rparr>)"
    by code_simp
  have k2: "keyword ''x-color red'' = ''x-color''" by code_simp
  have n2: "keyword ''x-color red'' \<notin> set [''subject'', ''from'', ''to'', ''time'', ''body'', ''file'']"
    unfolding k2 by simp
  have p2: "HasPrefix (keyword ''x-color red'') ''x-''" unfolding k2 by (simp add: HasPrefix_def)
  from unknown_field_refused_or_skipped[OF r1 _ _ n1, of ascii_extern "''msg''" zero_Message 0 0] p1 k1
  have a: "ParseReader_loop ascii_extern ''msg'' (reader_of [(''color red\<newline>'', None)]) zero_Message 0 0 =
     (Some (UnknownField ''msg'' 1 ''color''), zero_Message,
      \<lparr>buf = [], bufsize = 64,
       rd = \<lparr>Reader = [], nread = 10, hash = ''color red\<newline>''\<rparr>, err = None\<rparr>)"
    by simp
  from unknown_field_refused_or_skipped[OF r2 _ _ n2, of ascii_extern "''msg''" zero_Message 0 0] p2
  have b: "ParseReader_loop ascii_extern ''msg''
       (reader_of [(''x-color red\<newline>subject a\<newline>'', None)]) zero_Message 0 0 =
     ParseReader_loop ascii_extern ''msg''
       \<lparr>buf = ''subject a\<newline>'', bufsize = 64,
        rd = \<lparr>Reader = [], nread = 22, hash = ''x-color red\<newline>subject a\<newline>''\<rparr>,
        err = None\<rparr> zero_Message 1 0"
    by simp
  from a b show ?thesis by (rule conjI)
qed

lemma ParseUint_range:
  "ParseUint s bits = Inr v \<Longrightarrow> v = decimal_value s \<and> v < 2 ^ bits \<and> s \<noteq> [] \<and> list_all is_digit s"
  by (auto simp: ParseUint_def split: if_splits)


lemma foldl_digits_nonneg:
  "list_all is_digit s \<Longrightarrow> 0 \<le> n \<Longrightarrow> (0::int) \<le> foldl (\<lambda>n c. 10 * n + (of_char c - 48)) n s"
  by (induction s arbitrary: n) (auto simp: is_digit_def)

lemma ParseUint_nonneg: "ParseUint s bits = Inr v \<Longrightarrow> 0 \<le> v"
  using ParseUint_range[of s bits v] foldl_digits_nonneg[of s 0]
  by (auto simp: decimal_value_def)

lemma body_field_eq:
  assumes "ParseUint (TrimSpace X (drop p line)) 64 = Inr sz"
  shows "ParseReader_field X srcname lineno fileno FIELD_BODY line p br m =
     (if MAX_BODY_SIZE < sz then (Some (BodyTooLarge srcname lineno sz), m, br, fileno)
      else case ReadFull br (nat sz) of
             ((data, None), br1) \<Rightarrow> (None, m\<lparr>msg_body := data\<rparr>, br1, fileno)
           | ((data, Some e), br1) \<Rightarrow> (Some e, m\<lparr>msg_body := []\<rparr>, br1, fileno))"
proof (cases "MAX_BODY_SIZE < sz")
  case True
  then show ?thesis using assms by simp
next
  case False
  obtain data e br1 where r: "ReadFull br (nat sz) = ((data, e), br1)" by (metis prod.exhaust)
  have nn: "0 \<le> sz" using assms by (rule ParseUint_nonneg)
  show ?thesis
  proof (cases e)
    case None
    with ReadFull_props(3)[OF r] nn have "int (length data) = sz" by simp
    then show ?thesis using assms False r None by simp
  next
    case (Some a)
    then show ?thesis using assms False r by simp
  qed
qed

lemma fieldtab_body: "fieldtab ''body'' = Some FIELD_BODY"
  by (simp add: fieldtab_def)

lemma keyword_nonempty: "keyword line = ''body'' \<Longrightarrow> line \<noteq> [] \<and> hd line \<noteq> CHR '' ''"
  by (cases line) (auto simp: keyword_def split: if_splits)

lemma body_line_eq:
  assumes "ReadLine br = ((line, False, None), br1)" "keyword line = ''body''"
    and "ParseUint (TrimSpace X (drop 4 line)) 64 = Inr sz"
  shows "ParseReader_loop X srcname br m lineno fileno =
     (if MAX_BODY_SIZE < sz then (Some (BodyTooLarge srcname (lineno + 1) sz), m, br1)
      else case ReadFull br1 (nat sz) of
             ((data, None), br2) \<Rightarrow>
               ParseReader_loop X srcname br2 (m\<lparr>msg_body := data\<rparr>) (lineno + 1) fileno
           | ((data, Some e), br2) \<Rightarrow> (Some e, m\<lparr>msg_body := []\<rparr>, br2))"
proof -
  from keyword_nonempty[OF assms(2)] have ne: "line \<noteq> []" "hd line \<noteq> CHR '' ''" by auto
  have len: "length (keyword line) = 4" using assms(2) by simp
  have l: "ParseReader_line X srcname (lineno + 1) fileno line br1 m =
      ParseReader_field X srcname (lineno + 1) fileno FIELD_BODY line 4 br1 m"
    unfolding ParseReader_line_dispatch[OF ne] len unfolding assms(2) fieldtab_body
    by (simp del: ParseReader_field.simps)
  show ?thesis
    unfolding ParseReader_loop_step[OF assms(1)] l body_field_eq[OF assms(3)]
    by (auto split: prod.splits option.splits)
qed

lemma ParseUint_eq:
  "ParseUint s bitSize =
     (if s = [] \<or> \<not> list_all is_digit s then Inl ErrSyntax
      else if 2 ^ bitSize \<le> decimal_value s then Inl ErrRange
      else Inr (decimal_value s))"
  by (simp add: ParseUint_def)

lemma body_line_refused:
  assumes "ReadLine br = ((line, False, None), br1)" "keyword line = ''body''"
    and "ParseUint (TrimSpace X (drop 4 line)) 64 = Inl e"
  shows "ParseReader_loop X srcname br m lineno fileno =
     (Some (InvalidIntegerSize srcname (lineno + 1) (drop 4 line)), m, br1)"
proof -
  from keyword_nonempty[OF assms(2)] have ne: "line \<noteq> []" "hd line \<noteq> CHR '' ''" by auto
  have len: "length (keyword line) = 4" using assms(2) by simp
  have l: "ParseReader_line X srcname (lineno + 1) fileno line br1 m =
      ParseReader_field X srcname (lineno + 1) fileno FIELD_BODY line 4 br1 m"
    unfolding ParseReader_line_dispatch[OF ne] len unfolding assms(2) fieldtab_body
    by (simp del: ParseReader_field.simps)
  show ?thesis
    unfolding ParseReader_loop_step[OF assms(1)] l using assms(3) by simp
qed

text \<open>
  Claim C5, as stated, asks that every declared size above 8 MiB is refused with the
  body-too-large error, and that this happens before any byte of the payload is read
  from the stream. Neither holds in general. The size text is parsed by
  \<open>strconv.ParseUint\<close> with 64 bits: the header \<open>body 18446744073709551616\<close>
  declares 2 to the power 64, which is more than 8 MiB, and is refused with the
  invalid-integer-size error instead. The header line is read through the buffered
  reader, which fetches as many bytes as its buffer takes: for the 18 bytes
  \<open>body 8388609\<close>, \<open>Hello\<close> with the hint 18 (a buffer of 16 bytes) the parse fails
  with the body-too-large error after 16 bytes have been read from the stream and
  hashed; three of them are payload, and stay unread in the buffer.
\<close>

theorem body_limit_unreported_and_payload_read_ahead:
  "MAX_BODY_SIZE < decimal_value ''18446744073709551616'' \<and>
   ParseReader ascii_extern zero_Message
       [(''body 18446744073709551616\<newline>Hello\<newline>'', None)] 32 ''msg'' =
     (Some (InvalidIntegerSize ''msg'' 1 '' 18446744073709551616''), zero_Message) \<and>
   ParseReader_parse ascii_extern zero_Message [(''body 8388609\<newline>Hello'', None)] 18 ''msg'' =
     (Some (BodyTooLarge ''msg'' 1 8388609), zero_Message,
      \<lparr>buf = ''Hel'', bufsize = 16,
       rd = \<lparr>Reader = [(''lo'', None)], nread = 16, hash = ''body 8388609\<newline>Hel''\<rparr>,
       err = None\<rparr>)"
  by code_simp

text \<open>
  Claim C5, amended. When the loop reads a \<open>body\<close> header, \<open>s\<close> being the text after
  the keyword with the surrounding white space removed, and the limit being 8388608:
  if \<open>s\<close> is empty, holds a character that is not a decimal digit (a sign, too), or
  denotes a number of 2 to the power 64 or more, the parse returns the
  invalid-integer-size error; otherwise \<open>s\<close> denotes a number that is not negative,
  and if it exceeds the limit the parse returns the body-too-large error, and if it
  does not, also when it equals the limit, the header is accepted and the outcome is
  that of reading exactly that many bytes. In both cases of refusal the message is
  unchanged and the buffered reader is as reading the header line left it: no byte
  after the header line is consumed, and what the buffer had fetched from the stream
  beyond the line stays in it.
\<close>

theorem body_size_limit:
  assumes "ReadLine br = ((line, False, None), br1)" "keyword line = ''body''"
    and "s = TrimSpace X (drop 4 line)"
  shows "MAX_BODY_SIZE = 8388608 \<and>
     (s = [] \<or> \<not> list_all is_digit s \<or> 2 ^ 64 \<le> decimal_value s \<longrightarrow>
        ParseReader_loop X srcname br m lineno fileno =
          (Some (InvalidIntegerSize srcname (lineno + 1) (drop 4 line)), m, br1)) \<and>
     (s \<noteq> [] \<and> list_all is_digit s \<longrightarrow> 0 \<le> decimal_value s) \<and>
     (s \<noteq> [] \<and> list_all is_digit s \<and> MAX_BODY_SIZE < decimal_value s \<and> decimal_value s < 2 ^ 64 \<longrightarrow>
        ParseReader_loop X srcname br m lineno fileno =
          (Some (BodyTooLarge srcname (lineno + 1) (decimal_value s)), m, br1)) \<and>
     (s \<noteq> [] \<and> list_all is_digit s \<and> decimal_value s \<le> MAX_BODY_SIZE \<longrightarrow>
        ParseReader_loop X srcname br m lineno fileno =
          (case ReadFull br1 (nat (decimal_value s)) of
             ((data, None), br2) \<Rightarrow>
               ParseReader_loop X srcname br2 (m\<lparr>msg_body := data\<rparr>) (lineno + 1) fileno
           | ((data, Some e), br2) \<Rightarrow> (Some e, m\<lparr>msg_body := []\<rparr>, br2)))"
proof -
  have M: "MAX_BODY_SIZE = 8388608" by (simp add: MAX_BODY_SIZE_def)
  have a: "ParseReader_loop X srcname br m lineno fileno =
          (Some (InvalidIntegerSize srcname (lineno + 1) (drop 4 line)), m, br1)"
    if "s = [] \<or> \<not> list_all is_digit s \<or> 2 ^ 64 \<le> decimal_value s"
  proof -
    from that have "ParseUint s 64 = Inl ErrSyntax \<or> ParseUint s 64 = Inl ErrRange"
      unfolding ParseUint_eq by (cases "s = [] \<or> \<not> list_all is_digit s") simp_all
    then show ?thesis
      using body_line_refused[OF assms(1,2), of X ErrSyntax]
        body_line_refused[OF assms(1,2), of X ErrRange] assms(3) by auto
  qed
  have b: "0 \<le> decimal_value s" if "s \<noteq> [] \<and> list_all is_digit s"
    using that foldl_digits_nonneg[of s 0] by (simp add: decimal_value_def)
  have p: "ParseUint (TrimSpace X (drop 4 line)) 64 = Inr (decimal_value s)"
    if "s \<noteq> []" "list_all is_digit s" "decimal_value s < 2 ^ 64"
    using that assms(3) by (simp add: ParseUint_eq)
  have c: "ParseReader_loop X srcname br m lineno fileno =
          (Some (BodyTooLarge srcname (lineno + 1) (decimal_value s)), m, br1)"
    if "s \<noteq> [] \<and> list_all is_digit s \<and> MAX_BODY_SIZE < decimal_value s \<and> decimal_value s < 2 ^ 64"
    using body_line_eq[OF assms(1,2) p] that by simp
  have d: "ParseReader_loop X srcname br m lineno fileno =
          (case ReadFull br1 (nat (decimal_value s)) of
             ((data, None), br2) \<Rightarrow>
               ParseReader_loop X srcname br2 (m\<lparr>msg_body := data\<rparr>) (lineno + 1) fileno
           | ((data, Some e), br2) \<Rightarrow> (Some e, m\<lparr>msg_body := []\<rparr>, br2))"
    if t: "s \<noteq> [] \<and> list_all is_digit s \<and> decimal_value s \<le> MAX_BODY_SIZE"
  proof -
    from t M have "decimal_value s < 2 ^ 64" by simp
    with body_line_eq[OF assms(1,2) p] t show ?thesis by simp
  qed
  from M a b c d show ?thesis by blast
qed

text \<open>
  Claim C10. When the read of the declared body fails (\<open>io.ReadFull\<close> returns an
  error: a read error of the source, or the end of the stream before the declared
  number of bytes), the parse returns that error and the body of the message has
  length zero, whatever bytes the failed read had delivered.
\<close>

theorem body_cleared_when_read_fails:
  assumes "ReadLine br = ((line, False, None), br1)" "keyword line = ''body''"
    and "ParseUint (TrimSpace X (drop 4 line)) 64 = Inr sz" "sz \<le> MAX_BODY_SIZE"
    and "ReadFull br1 (nat sz) = ((data, Some e), br2)"
  shows "ParseReader_loop X srcname br m lineno fileno = (Some e, m\<lparr>msg_body := []\<rparr>, br2) \<and>
         msg_body (fst (snd (ParseReader_loop X srcname br m lineno fileno))) = []"
  using body_line_eq[OF assms(1,2,3)] assms(4,5) by simp


theorem body_size_limit_witness:
  "ParseReader_loop ascii_extern ''msg'' (reader_of [(''body 9999999999\<newline>Hello'', None)])
       zero_Message 0 0 =
     (Some (BodyTooLarge ''msg'' 1 9999999999), zero_Message,
      \<lparr>buf = ''Hello'', bufsize = 64,
       rd = \<lparr>Reader = [], nread = 21, hash = ''body 9999999999\<newline>Hello''\<rparr>, err = None\<rparr>) \<and>
   ParseReader_loop ascii_extern ''msg''
       (reader_of [(''body 8388608\<newline>'', None), (replicate 8388608 (CHR ''a''), None)])
       zero_Message 0 0 =
     (None, zero_Message\<lparr>msg_body := replicate 8388608 (CHR ''a'')\<rparr>,
      \<lparr>buf = [], bufsize = 64,
       rd = \<lparr>Reader = [], nread = 8388621,
              hash = ''body 8388608\<newline>'' @ replicate 8388608 (CHR ''a'')\<rparr>, err = None\<rparr>) \<and>
   ParseReader_loop ascii_extern ''msg'' (reader_of [(''body 18446744073709551616\<newline>'', None)])
       zero_Message 0 0 =
     (Some (InvalidIntegerSize ''msg'' 1 '' 18446744073709551616''), zero_Message,
      \<lparr>buf = [], bufsize = 64,
       rd = \<lparr>Reader = [], nread = 26, hash = ''body 18446744073709551616\<newline>''\<rparr>, err = None\<rparr>) \<and>
   ParseReader_loop ascii_extern ''msg'' (reader_of [(''body -5\<newline>'', None)])
       zero_Message 0 0 =
     (Some (InvalidIntegerSize ''msg'' 1 '' -5''), zero_Message,
      \<lparr>buf = [], bufsize = 64,
       rd = \<lparr>Reader = [], nread = 8, hash = ''body -5\<newline>''\<rparr>, err = None\<rparr>)"
proof -
  have r1: "ReadLine (reader_of [(''body 9999999999\<newline>Hello'', None)]) =
      ((''body 9999999999'', False, None),
       \<lparr>buf = ''Hello'', bufsize = 64,
        rd = \<lparr>Reader = [], nread = 21, hash = ''body 9999999999\<newline>Hello''\<rparr>, err = None\<rparr>)"
    by code_simp
  have k1: "keyword ''body 9999999999'' = ''body''" by code_simp
  have s1: "''9999999999'' = TrimSpace ascii_extern (drop 4 ''body 9999999999'')" by code_simp
  have d1: "list_all is_digit ''9999999999''" "decimal_value ''9999999999'' = 9999999999"
    by code_simp+
  from body_size_limit[OF r1 k1 s1, of "''msg''" zero_Message 0 0] d1
  have a: "ParseReader_loop ascii_extern ''msg'' (reader_of [(''body 9999999999\<newline>Hello'', None)])
       zero_Message 0 0 =
     (Some (BodyTooLarge ''msg'' 1 9999999999), zero_Message,
      \<lparr>buf = ''Hello'', bufsize = 64,
       rd = \<lparr>Reader = [], nread = 21, hash = ''body 9999999999\<newline>Hello''\<rparr>, err = None\<rparr>)"
    by simp
  define payload where "payload = replicate 8388608 (CHR ''a'')"
  have lp: "length payload = 8388608" by (simp add: payload_def)
  have r2: "ReadLine (reader_of [(''body 8388608\<newline>'', None), (payload, None)]) =
      ((''body 8388608'', False, None),
       \<lparr>buf = [], bufsize = 64,
        rd = \<lparr>Reader = [(payload, None)], nread = 13, hash = ''body 8388608\<newline>''\<rparr>,
        err = None\<rparr>)"
    by code_simp
  have k2: "keyword ''body 8388608'' = ''body''" by code_simp
  have s2: "''8388608'' = TrimSpace ascii_extern (drop 4 ''body 8388608'')" by code_simp
  have d2: "list_all is_digit ''8388608''" "decimal_value ''8388608'' = 8388608"
    by code_simp+
  have f2: "ReadFull \<lparr>buf = [], bufsize = 64,
        rd = \<lparr>Reader = [(payload, None)], nread = 13, hash = ''body 8388608\<newline>''\<rparr>,
        err = None\<rparr> 8388608 =
     ((payload, None),
      \<lparr>buf = [], bufsize = 64,
        rd = \<lparr>Reader = [], nread = 8388621, hash = ''body 8388608\<newline>'' @ payload\<rparr>,
        err = None\<rparr>)"
    apply (simp add: ReadFull_def)
    apply (subst ReadAtLeast_loop.simps)
    apply (simp add: bufio_Read_def HashingCountingReader_Read_def Let_def lp)
    apply (subst ReadAtLeast_loop.simps)
    apply (simp add: lp)
    done
  have e2: "\<And>h m. ParseReader_loop ascii_extern ''msg'' \<lparr>buf = [], bufsize = 64,
        rd = \<lparr>Reader = [], nread = 8388621, hash = h\<rparr>,
        err = None\<rparr> m 1 0 = (None, m, \<lparr>buf = [], bufsize = 64,
        rd = \<lparr>Reader = [], nread = 8388621, hash = h\<rparr>,
        err = None\<rparr>)"
    by code_simp
  from body_size_limit[OF r2 k2 s2, of "''msg''" zero_Message 0 0] d2
  have b: "ParseReader_loop ascii_extern ''msg''
       (reader_of [(''body 8388608\<newline>'', None), (payload, None)]) zero_Message 0 0 =
     (None, zero_Message\<lparr>msg_body := payload\<rparr>,
      \<lparr>buf = [], bufsize = 64,
       rd = \<lparr>Reader = [], nread = 8388621, hash = ''body 8388608\<newline>'' @ payload\<rparr>,
       err = None\<rparr>)"
    by (simp add: MAX_BODY_SIZE_def f2 e2)
  have r3: "ReadLine (reader_of [(''body 18446744073709551616\<newline>'', None)]) =
      ((''body 18446744073709551616'', False, None),
       \<lparr>buf = [], bufsize = 64,
        rd = \<lparr>Reader = [], nread = 26, hash = ''body 18446744073709551616\<newline>''\<rparr>,
        err = None\<rparr>)"
    by code_simp
  have k3: "keyword ''body 18446744073709551616'' = ''body''" by code_simp
  have s3: "''18446744073709551616'' =
      TrimSpace ascii_extern (drop 4 ''body 18446744073709551616'')" by code_simp
  have d3: "(2 :: int) ^ 64 \<le> decimal_value ''18446744073709551616''" by code_simp
  from body_size_limit[OF r3 k3 s3, of "''msg''" zero_Message 0 0] d3
  have c: "ParseReader_loop ascii_extern ''msg''
       (reader_of [(''body 18446744073709551616\<newline>'', None)]) zero_Message 0 0 =
     (Some (InvalidIntegerSize ''msg'' 1 '' 18446744073709551616''), zero_Message,
      \<lparr>buf = [], bufsize = 64,
       rd = \<lparr>Reader = [], nread = 26, hash = ''body 18446744073709551616\<newline>''\<rparr>, err = None\<rparr>)"
    by simp
  have r4: "ReadLine (reader_of [(''body -5\<newline>'', None)]) =
      ((''body -5'', False, None),
       \<lparr>buf = [], bufsize = 64,
        rd = \<lparr>Reader = [], nread = 8, hash = ''body -5\<newline>''\<rparr>, err = None\<rparr>)"
    by code_simp
  have k4: "keyword ''body -5'' = ''body''" by code_simp
  have s4: "''-5'' = TrimSpace ascii_extern (drop 4 ''body -5'')" by code_simp
  have d4: "\<not> list_all is_digit ''-5''" by code_simp
  from body_size_limit[OF r4 k4 s4, of "''msg''" zero_Message 0 0] d4
  have d: "ParseReader_loop ascii_extern ''msg'' (reader_of [(''body -5\<newline>'', None)])
       zero_Message 0 0 =
     (Some (InvalidIntegerSize ''msg'' 1 '' -5''), zero_Message,
      \<lparr>buf = [], bufsize = 64,
       rd = \<lparr>Reader = [], nread = 8, hash = ''body -5\<newline>''\<rparr>, err = None\<rparr>)"
    by simp
  from a b[unfolded payload_def] c d show ?thesis by (intro conjI)
qed

theorem body_cleared_when_read_fails_witness:
  "ParseReader_loop ascii_extern ''msg'' (reader_of [(''body 9\<newline>Hello'', None)])
       (zero_Message\<lparr>msg_body := ''old''\<rparr>) 0 0 =
     (Some ErrUnexpectedEOF, zero_Message\<lparr>msg_body := []\<rparr>,
      \<lparr>buf = [], bufsize = 64,
       rd = \<lparr>Reader = [], nread = 12, hash = ''body 9\<newline>Hello''\<rparr>, err = None\<rparr>)"
proof -
  have r: "ReadLine (reader_of [(''body 9\<newline>Hello'', None)]) =
      ((''body 9'', False, None),
       \<lparr>buf = ''Hello'', bufsize = 64,
        rd = \<lparr>Reader = [], nread = 12, hash = ''body 9\<newline>Hello''\<rparr>, err = None\<rparr>)"
    by code_simp
  have k: "keyword ''body 9'' = ''body''" by code_simp
  have u: "ParseUint (TrimSpace ascii_extern (drop 4 ''body 9'')) 64 = Inr 9" by code_simp
  have le: "(9 :: int) \<le> MAX_BODY_SIZE" by (simp add: MAX_BODY_SIZE_def)
  have f: "ReadFull \<lparr>buf = ''Hello'', bufsize = 64,
        rd = \<lparr>Reader = [], nread = 12, hash = ''body 9\<newline>Hello''\<rparr>, err = None\<rparr> (nat 9) =
      ((''Hello'', Some ErrUnexpectedEOF),
       \<lparr>buf = [], bufsize = 64,
        rd = \<lparr>Reader = [], nread = 12, hash = ''body 9\<newline>Hello''\<rparr>, err = None\<rparr>)"
    by code_simp
  from body_cleared_when_read_fails[OF r k u le f, of "''msg''" "zero_Message\<lparr>msg_body := ''old''\<rparr>" 0 0]
  show ?thesis by simp
qed

lemma ParseReader_id_digest:
  assumes "ParseReader_parse X m r srcsize srcname = (None, m1, br1)"
    and "length (msg_id m1) = 24" "length (sha256_Sum X (hash (rd br1))) = 32"
    and "idEpochBase \<le> msg_time m1"
  shows "fst (ParseReader X m r srcsize srcname) = None"
    and "drop 4 (msg_id (snd (ParseReader X m r srcsize srcname))) =
           take 20 (sha256_Sum X (hash (rd br1)))"
proof -
  define d where "d = take 20 (sha256_Sum X (hash (rd br1)))"
  define hd4 where "hd4 = take 4 (msg_id m1)"
  have ld: "length d = 20" using assms(3) by (simp add: d_def)
  have lh: "length hd4 = 4" using assms(2) by (simp add: hd4_def)
  have cb: "copy_bytes (drop 4 (msg_id m1)) d = d"
    using assms(2) ld by (simp add: copy_bytes_def)
  define m2 where "m2 = m1\<lparr>msg_id := hd4 @ d\<rparr>"
  have pr: "ParseReader X m r srcsize srcname = UpdateIdFromTime m2"
    using assms(1) cb by (simp add: ParseReader_def Let_def m2_def d_def hd4_def)
  have t: "\<not> msg_time m2 < idEpochBase" using assms(4) by (simp add: m2_def)
  show "fst (ParseReader X m r srcsize srcname) = None"
    unfolding pr using t by (simp add: UpdateIdFromTime_def Let_def)
  have upd: "\<And>a b c e. (hd4 @ d)[0 := a, 1 := b, 2 := c, 3 := e] = hd4[0 := a, 1 := b, 2 := c, 3 := e] @ d"
    using lh by (simp add: list_update_append1)
  show "drop 4 (msg_id (snd (ParseReader X m r srcsize srcname))) =
           take 20 (sha256_Sum X (hash (rd br1)))"
    unfolding pr d_def[symmetric] using t lh
    by (simp add: UpdateIdFromTime_def Let_def m2_def upd)
qed

text \<open>
  Claim C3. The offsets of the attachments should increase strictly, and
  \<open>dataStart + dataLen\<close> should not exceed the count of bytes consumed. Both fail
  on a source that delivers bytes together with \<open>io.EOF\<close>, because the hashing reader
  does not count such bytes while the buffered reader keeps them. For the stream
  \<open>file 0 a\<close>, \<open>file 5 b\<close>, \<open>Hello\<close> whose second read comes with \<open>io.EOF\<close> the parse
  succeeds with the offsets 9 and 4 (the payload of \<open>b\<close> begins at 18). For the stream
  \<open>file 5\<close>, \<open>Hello\<close> whose payload comes with \<open>io.EOF\<close> the parse succeeds with
  \<open>dataStart + dataLen = 12\<close> while the count of bytes consumed is 7.
\<close>

theorem attachment_offsets_miss_bytes_read_with_error:
  "fst (ParseReader ascii_extern (zero_Message\<lparr>msg_time := 1660000000\<rparr>)
          [(''file 0 a\<newline>'', None), (''file 5 b\<newline>Hello'', Some EOF)] 23 ''msg'') = None \<and>
   msg_files (snd (ParseReader ascii_extern (zero_Message\<lparr>msg_time := 1660000000\<rparr>)
          [(''file 0 a\<newline>'', None), (''file 5 b\<newline>Hello'', Some EOF)] 23 ''msg'')) =
     [\<lparr>file_name = ''a'', dataStart = 9, dataLen = 0\<rparr>,
      \<lparr>file_name = ''b'', dataStart = 4, dataLen = 5\<rparr>] \<and>
   fst (ParseReader ascii_extern (zero_Message\<lparr>msg_time := 1660000000\<rparr>)
          [(''file 5\<newline>'', None), (''Hello'', Some EOF)] 12 ''msg'') = None \<and>
   msg_files (snd (ParseReader ascii_extern (zero_Message\<lparr>msg_time := 1660000000\<rparr>)
          [(''file 5\<newline>'', None), (''Hello'', Some EOF)] 12 ''msg'')) =
     [\<lparr>file_name = [], dataStart = 7, dataLen = 5\<rparr>] \<and>
   nread (rd (snd (snd (ParseReader_parse ascii_extern (zero_Message\<lparr>msg_time := 1660000000\<rparr>)
          [(''file 5\<newline>'', None), (''Hello'', Some EOF)] 12 ''msg'')))) = 7"
  by code_simp

text \<open>
  Claim C9. Two parses of the same bytes into fresh messages with the same time should
  give the same id and the same attachment descriptors. The 12 bytes \<open>file 3 a\<close>,
  \<open>abc\<close> delivered by one read without error, and the same 12 bytes delivered by one
  read together with \<open>io.EOF\<close>, both parse without error; the first parse records the
  attachment at offset 9 and hashes the 12 bytes, the second records it at offset -3
  and hashes nothing, so that its id holds the digest of the empty input
  (\<open>ParseReader_id_digest\<close>).
\<close>

theorem same_bytes_different_parse:
  "fst (ParseReader ascii_extern (zero_Message\<lparr>msg_time := 1660000000\<rparr>)
          [(''file 3 a\<newline>abc'', None)] 12 ''msg'') = None \<and>
   fst (ParseReader ascii_extern (zero_Message\<lparr>msg_time := 1660000000\<rparr>)
          [(''file 3 a\<newline>abc'', Some EOF)] 12 ''msg'') = None \<and>
   msg_files (snd (ParseReader ascii_extern (zero_Message\<lparr>msg_time := 1660000000\<rparr>)
          [(''file 3 a\<newline>abc'', None)] 12 ''msg'')) =
     [\<lparr>file_name = ''a'', dataStart = 9, dataLen = 3\<rparr>] \<and>
   msg_files (snd (ParseReader ascii_extern (zero_Message\<lparr>msg_time := 1660000000\<rparr>)
          [(''file 3 a\<newline>abc'', Some EOF)] 12 ''msg'')) =
     [\<lparr>file_name = ''a'', dataStart = - 3, dataLen = 3\<rparr>] \<and>
   hash (rd (snd (snd (ParseReader_parse ascii_extern (zero_Message\<lparr>msg_time := 1660000000\<rparr>)
          [(''file 3 a\<newline>abc'', None)] 12 ''msg'')))) = ''file 3 a\<newline>abc'' \<and>
   hash (rd (snd (snd (ParseReader_parse ascii_extern (zero_Message\<lparr>msg_time := 1660000000\<rparr>)
          [(''file 3 a\<newline>abc'', Some EOF)] 12 ''msg'')))) = []"
  by code_simp

section \<open>The parser on sources that deliver no bytes together with an error\<close>

text \<open>
  On an unmixed source every byte that the buffered reader takes in is counted and
  hashed, so that \<open>pos\<close> is the number of bytes consumed and the bytes hashed are a
  prefix of the stream. The lemmas below follow this through the buffered reader and
  the loop of \<open>ParseReader\<close>.
\<close>

lemma Reader_Read_unmixed:
  assumes "Reader_Read r lenp = ((p, e), r')" "unmixed r"
  shows "unmixed r'" "p @ remaining r' = remaining r" "e = None \<or> p = []"
  using assms
  by (cases r; auto simp: unmixed_def remaining_def split: if_splits)+

lemma HashingCountingReader_Read_unmixed:
  assumes "HashingCountingReader_Read h lenp = ((p, e), h')" "unmixed (Reader h)"
  shows "unmixed (Reader h')" "nread h' = nread h + int (length p)"
    "hash h' = hash h @ p" "hash h' @ remaining (Reader h') = hash h @ remaining (Reader h)"
proof -
  obtain p0 e0 r0 where rr: "Reader_Read (Reader h) lenp = ((p0, e0), r0)"
    by (metis prod.exhaust)
  note u = Reader_Read_unmixed[OF rr assms(2)]
  from assms(1) rr have eq: "p = p0" "e = e0" "Reader h' = r0"
    by (auto simp: HashingCountingReader_Read_def Let_def split: if_splits)
  show "unmixed (Reader h')" using u(1) eq by simp
  show n: "nread h' = nread h + int (length p)"
    using assms(1) rr u(3) by (auto simp: HashingCountingReader_Read_def Let_def split: if_splits)
  show hh: "hash h' = hash h @ p"
    using assms(1) rr u(3) by (auto simp: HashingCountingReader_Read_def Let_def split: if_splits)
  show "hash h' @ remaining (Reader h') = hash h @ remaining (Reader h)"
    using hh u(2) eq by simp
qed

lemma follows_refl: "unmixed (Reader (rd b)) \<Longrightarrow> follows b b 0"
  by (simp add: follows_def)

lemma follows_trans: "follows a b n \<Longrightarrow> follows b c k \<Longrightarrow> follows a c (n + k)"
  by (simp add: follows_def)

lemma follows_buf:
  "follows a b n \<Longrightarrow> k \<le> length (buf b) \<Longrightarrow> follows a (b\<lparr>buf := drop k (buf b)\<rparr>) (n + k)"
  by (simp add: follows_def pos_def Buffered_def stream_def)

lemma follows_err: "follows a b n \<Longrightarrow> follows a (b\<lparr>err := e\<rparr>) n"
  by (simp add: follows_def pos_def Buffered_def stream_def)

lemma fill_loop_follows:
  "unmixed (Reader (rd b)) \<Longrightarrow> follows b (fill_loop i b) 0"
proof (induction i arbitrary: b)
  case 0
  then show ?case by (simp add: follows_def pos_def Buffered_def stream_def)
next
  case (Suc i)
  obtain p e r where h: "HashingCountingReader_Read (rd b) (bufsize b - length (buf b)) = ((p, e), r)"
    by (metis prod.exhaust)
  note u = HashingCountingReader_Read_unmixed[OF h Suc.prems]
  define b1 where "b1 = b\<lparr>rd := r, buf := buf b @ p\<rparr>"
  have f1: "follows b b1 0"
    using u by (simp add: follows_def b1_def pos_def Buffered_def stream_def)
  have u1: "unmixed (Reader (rd b1))" using u(1) by (simp add: b1_def)
  have "fill_loop (Suc i) b = (if e \<noteq> None then b1\<lparr>err := e\<rparr>
      else if 0 < length p then b1 else fill_loop i b1)"
    using h by (simp add: b1_def Let_def)
  then show ?case
    using f1 follows_err[OF f1, of e] follows_trans[OF f1 Suc.IH[OF u1]] by auto
qed

lemma fill_follows: "unmixed (Reader (rd b)) \<Longrightarrow> follows b (fill b) 0"
  using fill_loop_follows[of b maxConsecutiveEmptyReads] follows_err[OF follows_refl, of b "Some Panic"]
  by (auto simp: fill_def)

lemma IndexByte_less: "0 \<le> IndexByte s c \<Longrightarrow> nat (IndexByte s c) < length s"
proof (induction s)
  case Nil
  then show ?case by simp
next
  case (Cons x xs)
  then show ?case by (auto simp: Let_def split: if_splits)
qed

lemma ReadSlice_follows:
  "ReadSlice b delim = ((line, e), b') \<Longrightarrow> unmixed (Reader (rd b)) \<Longrightarrow>
     follows b b' (length line)"
proof (induction b delim arbitrary: line e b' rule: ReadSlice.induct)
  case (1 b delim)
  note u = "1.prems"(2)
  show ?case
  proof (cases "0 \<le> IndexByte (buf b) delim")
    case True
    define k where "k = nat (IndexByte (buf b) delim) + 1"
    have kl: "k \<le> length (buf b)" using IndexByte_less[OF True] by (simp add: k_def)
    from True "1.prems"(1) have eq: "line = take k (buf b)" "b' = b\<lparr>buf := drop k (buf b)\<rparr>"
      by (simp_all add: ReadSlice.simps[of b delim] Let_def k_def)
    have ll: "length line = k" using eq(1) kl by simp
    have "follows b (b\<lparr>buf := drop k (buf b)\<rparr>) (0 + k)"
      by (rule follows_buf[OF follows_refl[OF u] kl])
    then show ?thesis unfolding eq(2) ll by simp
  next
    case F1: False
    show ?thesis
    proof (cases "err b \<noteq> None")
      case True
      with F1 "1.prems"(1) have eq: "line = buf b" "b' = b\<lparr>buf := [], err := None\<rparr>"
        by (auto simp: ReadSlice.simps[of b delim] Let_def)
      from follows_err[OF follows_buf[OF follows_refl[OF u], of "length (buf b)"], of None] eq
      show ?thesis by simp
    next
      case F2: False
      show ?thesis
      proof (cases "bufsize b \<le> length (buf b)")
        case True
        with F1 F2 "1.prems"(1) have eq: "line = buf b" "b' = b\<lparr>buf := []\<rparr>"
          by (auto simp: ReadSlice.simps[of b delim] Let_def)
        from follows_buf[OF follows_refl[OF u], of "length (buf b)"] eq show ?thesis by simp
      next
        case F3: False
        with F1 F2 "1.prems"(1) have r: "ReadSlice (fill b) delim = ((line, e), b')"
          by (simp add: ReadSlice.simps[of b delim] Let_def)
        note ff = fill_follows[OF u]
        then have uf: "unmixed (Reader (rd (fill b)))" by (simp add: follows_def)
        from follows_trans[OF ff "1.IH"[OF refl F1 F2 F3 r uf]] show ?thesis by simp
      qed
    qed
  qed
qed

lemma ReadSlice_error_empties:
  "ReadSlice b delim = ((line, Some e), b') \<Longrightarrow> buf b' = []"
proof (induction b delim arbitrary: line e b' rule: ReadSlice.induct)
  case (1 b delim)
  show ?case
  proof (cases "0 \<le> IndexByte (buf b) delim \<or> err b \<noteq> None \<or> bufsize b \<le> length (buf b)")
    case True
    with "1.prems" show ?thesis
      by (auto simp: ReadSlice.simps[of b delim] Let_def split: if_splits)
  next
    case False
    with "1.prems" have r: "ReadSlice (fill b) delim = ((line, Some e), b')"
      by (simp add: ReadSlice.simps[of b delim] Let_def)
    from False "1.IH"[OF refl _ _ _ r] show ?thesis by auto
  qed
qed

lemma ReadLine_follows:
  assumes "ReadLine b = ((line, tooLarge, e), b')" "unmixed (Reader (rd b))"
  shows "\<exists>n. follows b b' n \<and> (e = None \<and> \<not> tooLarge \<longrightarrow> 0 < n)"
proof -
  obtain l0 e0 b1 where rs: "ReadSlice b (CHR 0x0A) = ((l0, e0), b1)"
    by (metis prod.exhaust)
  note f = ReadSlice_follows[OF rs assms(2)]
  note p = ReadSlice_props[OF rs]
  show ?thesis
  proof (cases "e0 = Some ErrBufferFull \<and> 0 < length l0 \<and> last l0 = CHR 0x0D")
    case True
    then have be: "buf b1 = []" using ReadSlice_error_empties rs by blast
    from True assms(1) rs have eq: "b' = b1\<lparr>buf := [CHR 0x0D]\<rparr>" "tooLarge"
      by (auto simp: ReadLine_def Let_def)
    from True obtain k where k: "length l0 = Suc k" by (cases l0) auto
    have "follows b b' k"
      using f be unfolding eq k by (simp add: follows_def pos_def Buffered_def stream_def)
    then show ?thesis using eq(2) by blast
  next
    case False
    with assms(1) rs have eq: "b' = b1" by (auto simp: ReadLine_def Let_def split: if_splits)
    have "e = None \<and> \<not> tooLarge \<longrightarrow> 0 < length l0"
      using assms(1) rs p by (auto simp: ReadLine_def Let_def split: if_splits)
    then show ?thesis using f eq by blast
  qed
qed

lemma Discard_loop_follows:
  "Discard_loop b n remain = ((d, e), b') \<Longrightarrow> unmixed (Reader (rd b)) \<Longrightarrow>
   0 \<le> remain \<Longrightarrow> remain \<le> n \<Longrightarrow>
     n - remain \<le> d \<and> d \<le> n \<and> follows b b' (nat (d - (n - remain)))"
proof (induction b n remain arbitrary: d e b' rule: Discard_loop.induct)
  case (1 b n remain)
  note u = "1.prems"(2)
  define b1 where "b1 = (if length (buf b) = 0 then fill b else b)"
  define skip where "skip = (if remain < Buffered b1 then remain else Buffered b1)"
  define b2 where "b2 = b1\<lparr>buf := drop (nat skip) (buf b1)\<rparr>"
  define remain' where "remain' = remain - skip"
  have eq: "Discard_loop b n remain =
      (if remain' = 0 then ((n, None), b2)
       else if err b2 \<noteq> None then ((n - remain', err b2), b2\<lparr>err := None\<rparr>)
       else Discard_loop b2 n remain')"
    unfolding b1_def skip_def b2_def remain'_def
    by (subst Discard_loop.simps) (simp only: Let_def)
  have f1: "follows b b1 0" using fill_follows[OF u] follows_refl[OF u] by (simp add: b1_def)
  have sk: "0 \<le> skip" "skip \<le> remain" "nat skip \<le> length (buf b1)"
    using "1.prems"(3) by (auto simp: skip_def Buffered_def)
  have f2: "follows b b2 (nat skip)"
    using follows_buf[OF f1 sk(3)] by (simp add: b2_def)
  have r': "0 \<le> remain'" "remain' \<le> n" using sk "1.prems"(4) by (auto simp: remain'_def)
  show ?case
  proof (cases "remain' = 0")
    case True
    with "1.prems"(1) have "d = n" "b' = b2" unfolding eq by auto
    moreover have "skip = remain" using True by (simp add: remain'_def)
    ultimately show ?thesis using f2 "1.prems"(3,4) by simp
  next
    case F1: False
    show ?thesis
    proof (cases "err b2 \<noteq> None")
      case True
      with F1 "1.prems"(1) have "d = n - remain'" "b' = b2\<lparr>err := None\<rparr>" unfolding eq by auto
      moreover have "n - remain' - (n - remain) = skip" by (simp add: remain'_def)
      ultimately show ?thesis using follows_err[OF f2, of None] r' sk "1.prems"(3,4) by simp
    next
      case F2: False
      with F1 "1.prems"(1) have r: "Discard_loop b2 n remain' = ((d, e), b')" unfolding eq by simp
      have u2: "unmixed (Reader (rd b2))" using f2 by (simp add: follows_def)
      from "1.IH"[OF b1_def skip_def b2_def remain'_def F1 F2 r u2 r']
      have ih: "n - remain' \<le> d" "d \<le> n" "follows b2 b' (nat (d - (n - remain')))" by auto
      have "nat skip + nat (d - (n - remain')) = nat (d - (n - remain))"
        using ih(1) sk by (simp add: remain'_def)
      with follows_trans[OF f2 ih(3)] ih(1,2) sk show ?thesis by (simp add: remain'_def)
    qed
  qed
qed

lemma Discard_follows:
  assumes "Discard b n = ((d, e), b')" "unmixed (Reader (rd b))"
  shows "\<exists>k. follows b b' k \<and> (n \<le> d \<and> e = None \<longrightarrow> 0 \<le> n \<and> int k = n)"
proof (cases "n \<le> 0")
  case True
  with assms have "b' = b" "n < 0 \<longrightarrow> e \<noteq> None \<or> d = 0"
    by (auto simp: Discard_def split: if_splits)
  moreover have "n < 0 \<longrightarrow> \<not> (n \<le> d \<and> e = None)"
    using assms True by (auto simp: Discard_def split: if_splits)
  ultimately show ?thesis using follows_refl[OF assms(2)] True
    by (intro exI[of _ 0]) auto
next
  case False
  with assms(1) have l: "Discard_loop b n n = ((d, e), b')" by (simp add: Discard_def)
  from Discard_loop_follows[OF l assms(2)] False
  have "d \<le> n" "follows b b' (nat d)" "0 \<le> d" by auto
  then show ?thesis by (intro exI[of _ "nat d"]) auto
qed

lemma bufio_Read_follows:
  assumes "bufio_Read b lenp = ((p, e), b')" "unmixed (Reader (rd b))"
  shows "follows b b' (length p)"
proof -
  obtain p1 e1 r1 where h1: "HashingCountingReader_Read (rd b) lenp = ((p1, e1), r1)"
    by (metis prod.exhaust)
  obtain p2 e2 r2 where h2: "HashingCountingReader_Read (rd b) (bufsize b) = ((p2, e2), r2)"
    by (metis prod.exhaust)
  note u1 = HashingCountingReader_Read_unmixed[OF h1 assms(2)]
  note u2 = HashingCountingReader_Read_unmixed[OF h2 assms(2)]
  show ?thesis
    using assms h1 h2 u1 u2
    by (auto simp: bufio_Read_def Let_def follows_def pos_def Buffered_def stream_def min_def
        split: if_splits)
qed

lemma ReadAtLeast_loop_follows:
  "ReadAtLeast_loop b minimum acc e = ((out, e'), b') \<Longrightarrow> unmixed (Reader (rd b)) \<Longrightarrow>
     length acc \<le> length out \<and> follows b b' (length out - length acc)"
proof (induction b minimum acc e arbitrary: out e' b' rule: ReadAtLeast_loop.induct)
  case (1 b minimum acc e)
  show ?case
  proof (cases "length acc < minimum \<and> e = None")
    case False
    with "1.prems" show ?thesis
      by (auto simp: ReadAtLeast_loop.simps[of b minimum acc e] follows_refl)
  next
    case True
    obtain p e1 b1 where r: "bufio_Read b (minimum - length acc) = ((p, e1), b1)"
      by (metis prod.exhaust)
    note f = bufio_Read_follows[OF r "1.prems"(2)]
    then have u1: "unmixed (Reader (rd b1))" by (simp add: follows_def)
    from True r "1.prems"(1) have rec: "ReadAtLeast_loop b1 minimum (acc @ p) e1 = ((out, e'), b')"
      by (simp add: ReadAtLeast_loop.simps[of b minimum acc])
    from "1.IH"[OF True r[symmetric] refl rec u1]
    have ih: "length (acc @ p) \<le> length out" "follows b1 b' (length out - length (acc @ p))"
      by auto
    have "length p + (length out - length (acc @ p)) = length out - length acc"
      using ih(1) by simp
    with follows_trans[OF f ih(2)] ih(1) show ?thesis by simp
  qed
qed

lemma ReadFull_follows:
  assumes "ReadFull b len = ((out, e), b')" "unmixed (Reader (rd b))"
  shows "follows b b' (length out)"
proof -
  obtain acc e0 b0 where r: "ReadAtLeast_loop b len [] None = ((acc, e0), b0)"
    by (metis prod.exhaust)
  from ReadAtLeast_loop_follows[OF r assms(2)] assms(1) r show ?thesis
    by (auto simp: ReadFull_def split: if_splits)
qed

lemma offsets_ok_mono: "offsets_ok fs p \<Longrightarrow> p \<le> q \<Longrightarrow> offsets_ok fs q"
  by (auto simp: offsets_ok_def list_all_iff)

lemma offsets_ok_append:
  assumes "offsets_ok fs p" "p < dataStart f" "0 \<le> dataLen f" "dataStart f + dataLen f \<le> q"
  shows "offsets_ok (fs @ [f]) q"
proof -
  have "\<forall>g\<in>set fs. dataStart g < dataStart f"
    using assms(1,2) by (fastforce simp: offsets_ok_def list_all_iff)
  moreover have "p \<le> q" using assms(2,3,4) by linarith
  ultimately show ?thesis
    using assms by (auto simp: offsets_ok_def list_all_iff sorted_wrt_append)
qed

lemma ParseReader_field_follows:
  assumes "ParseReader_field X srcname lineno fileno f line p br m = (e, m', br', fileno')"
    and "unmixed (Reader (rd br))"
  shows "\<exists>n. follows br br' n \<and>
     (msg_files m' = msg_files m \<or>
      (\<exists>fl. msg_files m' = msg_files m @ [fl] \<and> dataStart fl = pos br \<and>
            0 \<le> dataLen fl \<and> pos br' = pos br + dataLen fl))"
proof (cases f)
  case FIELD_BODY
  show ?thesis
  proof (cases "ParseUint (TrimSpace X (drop p line)) 64")
    case (Inl x)
    with assms FIELD_BODY show ?thesis using follows_refl by auto
  next
    case (Inr sz)
    obtain data e1 br1 where r: "ReadFull br (nat sz) = ((data, e1), br1)" by (metis prod.exhaust)
    from ReadFull_follows[OF r assms(2)] assms FIELD_BODY Inr r follows_refl[OF assms(2)]
    show ?thesis by (auto split: if_splits)
  qed
next
  case FIELD_FILE
  define line1 where "line1 = TrimSpace X (drop p line)"
  define line2 where "line2 = (if IndexByte line1 (CHR '' '') \<noteq> - 1
       then take (nat (IndexByte line1 (CHR '' ''))) line1 else line1)"
  show ?thesis
  proof (cases "ParseUint line2 64")
    case (Inl x)
    with assms FIELD_FILE follows_refl[OF assms(2)] show ?thesis
      by (auto simp: Let_def line1_def line2_def split: if_splits)
  next
    case (Inr size64)
    define sz where "sz = wrap_int64 size64"
    obtain d e1 br1 where r: "Discard br sz = ((d, e1), br1)"
      by (metis prod.exhaust)
    from Discard_follows[OF r assms(2)] obtain k where
      k: "follows br br1 k" "sz \<le> d \<and> e1 = None \<longrightarrow> 0 \<le> sz \<and> int k = sz" by blast
    show ?thesis
    proof (cases "sz \<le> d \<and> e1 = None")
      case True
      with assms(1) FIELD_FILE Inr r have eq: "br' = br1"
        "msg_files m' = msg_files m @
           [\<lparr>file_name = (if IndexByte line1 (CHR '' '') \<noteq> - 1
                 then TrimSpace X (drop (nat (IndexByte line1 (CHR '' ''))) line1) else []),
             dataStart = pos br, dataLen = sz\<rparr>]"
        by (auto simp: Let_def line1_def line2_def sz_def pos_def split: if_splits)
      from k True have "0 \<le> sz" "pos br1 = pos br + sz" by (auto simp: follows_def)
      with eq k(1) show ?thesis by auto
    next
      case False
      with assms(1) FIELD_FILE Inr r have "br' = br1" "msg_files m' = msg_files m"
        by (auto simp: Let_def line1_def line2_def sz_def split: if_splits)
      with k(1) show ?thesis by auto
    qed
  qed
qed (use assms follows_refl[OF assms(2)] in \<open>auto simp: Let_def split: option.splits prod.splits\<close>)

lemma ParseReader_line_follows:
  assumes "ParseReader_line X srcname lineno fileno line br m = (e, m', br', fileno')"
    and "unmixed (Reader (rd br))"
  shows "\<exists>n. follows br br' n \<and>
     (msg_files m' = msg_files m \<or>
      (\<exists>fl. msg_files m' = msg_files m @ [fl] \<and> dataStart fl = pos br \<and>
            0 \<le> dataLen fl \<and> pos br' = pos br + dataLen fl))"
proof (cases "\<exists>fd. IndexByte line (CHR '' '') \<noteq> 0 \<and>
      \<not> (IndexByte line (CHR '' '') = - 1 \<and> length line = 0) \<and>
      fieldtab (take (nat (if IndexByte line (CHR '' '') = - 1 then int (length line)
                           else IndexByte line (CHR '' ''))) line) = Some fd")
  case True
  then obtain fd where fd: "IndexByte line (CHR '' '') \<noteq> 0"
      "\<not> (IndexByte line (CHR '' '') = - 1 \<and> length line = 0)"
      "fieldtab (take (nat (if IndexByte line (CHR '' '') = - 1 then int (length line)
                           else IndexByte line (CHR '' ''))) line) = Some fd" by blast
  then have "ParseReader_line X srcname lineno fileno line br m =
      ParseReader_field X srcname lineno fileno fd line
        (nat (if IndexByte line (CHR '' '') = - 1 then int (length line)
              else IndexByte line (CHR '' ''))) br m"
    by (auto simp: ParseReader_line_def Let_def)
  with assms(1) ParseReader_field_follows[OF _ assms(2)] show ?thesis by metis
next
  case False
  then have "br' = br" "msg_files m' = msg_files m"
    using assms(1)
    by (auto simp: ParseReader_line_def Let_def split: if_splits option.splits)
  then show ?thesis using follows_refl[OF assms(2)] by auto
qed

lemma ParseReader_loop_offsets:
  "ParseReader_loop X srcname br m lineno fileno = (res, m', br') \<Longrightarrow>
   unmixed (Reader (rd br)) \<Longrightarrow>
     stream br' = stream br \<and> unmixed (Reader (rd br')) \<and>
     (offsets_ok (msg_files m) (pos br) \<longrightarrow> offsets_ok (msg_files m') (pos br'))"
proof (induction X srcname br m lineno fileno arbitrary: res m' br' rule: ParseReader_loop.induct)
  case (1 X srcname br m lineno fileno)
  obtain line tl e br1 where rl: "ReadLine br = ((line, tl, e), br1)"
    by (metis prod.exhaust)
  from ReadLine_follows[OF rl "1.prems"(2)] obtain n1 where
    n1: "follows br br1 n1" "e = None \<and> \<not> tl \<longrightarrow> 0 < n1" by blast
  have u1: "unmixed (Reader (rd br1))" and p1: "pos br \<le> pos br1" and s1: "stream br1 = stream br"
    using n1(1) by (auto simp: follows_def)
  show ?case
  proof (cases "e = None \<and> \<not> tl")
    case False
    with "1.prems"(1) rl have "m' = m" "br' = br1"
      by (auto simp: ParseReader_loop.simps[of X srcname br m lineno fileno] Let_def split: if_splits)
    with offsets_ok_mono[OF _ p1] s1 u1 show ?thesis by simp
  next
    case True
    then have lt: "pos br < pos br1" using n1 by (auto simp: follows_def)
    obtain e2 m2 br2 fileno2 where pl:
      "ParseReader_line X srcname (lineno + 1) fileno line br1 m = (e2, m2, br2, fileno2)"
      by (metis prod.exhaust)
    from ParseReader_line_follows[OF pl u1] obtain n2 where
      n2: "follows br1 br2 n2"
        "msg_files m2 = msg_files m \<or>
         (\<exists>fl. msg_files m2 = msg_files m @ [fl] \<and> dataStart fl = pos br1 \<and>
               0 \<le> dataLen fl \<and> pos br2 = pos br1 + dataLen fl)" by blast
    have u2: "unmixed (Reader (rd br2))" and p2: "pos br1 \<le> pos br2" and s2: "stream br2 = stream br1"
      using n2(1) by (auto simp: follows_def)
    have ok2: "offsets_ok (msg_files m2) (pos br2)" if ok: "offsets_ok (msg_files m) (pos br)"
    proof (cases "msg_files m2 = msg_files m")
      case True
      with offsets_ok_mono[OF ok, of "pos br2"] p1 p2 show ?thesis by simp
    next
      case False
      with n2(2) obtain fl where fl: "msg_files m2 = msg_files m @ [fl]" "dataStart fl = pos br1"
        "0 \<le> dataLen fl" "pos br2 = pos br1 + dataLen fl" by blast
      from offsets_ok_append[OF ok, of fl "pos br2"] lt fl show ?thesis by simp
    qed
    show ?thesis
    proof (cases e2)
      case None
      with True "1.prems"(1) rl pl
      have rec: "ParseReader_loop X srcname br2 m2 (lineno + 1) fileno2 = (res, m', br')"
        by (simp add: ParseReader_loop.simps[of X srcname br m lineno fileno] Let_def)
      from True have c: "\<not> e \<noteq> None" "\<not> tl" by auto
      from "1.IH"[OF refl rl[symmetric] refl refl c pl[symmetric] None refl refl rec u2] s1 s2 ok2
      show ?thesis by simp
    next
      case (Some a)
      with True "1.prems"(1) rl pl have "m' = m2" "br' = br2"
        by (auto simp: ParseReader_loop.simps[of X srcname br m lineno fileno] Let_def)
      with ok2 s1 s2 u2 show ?thesis by simp
    qed
  qed
qed

text \<open>
  On an unmixed source, whatever the outcome of the parse: the starts of the attachments
  recorded increase strictly, every attachment ends at or before the count of bytes
  read, and the bytes hashed followed by the bytes not yet delivered are the stream.
\<close>

lemma attachments_ordered_when_unmixed:
  assumes "unmixed r" "msg_files m = []"
    and "ParseReader_parse X m r srcsize srcname = (res, m', br')"
  shows "sorted_wrt (<) (map dataStart (msg_files m'))"
    and "list_all (\<lambda>f. 0 \<le> dataLen f \<and> dataStart f + dataLen f \<le> nread (rd br')) (msg_files m')"
    and "hash (rd br') @ remaining (Reader (rd br')) = remaining r"
proof -
  define br where "br = NewReaderSize (MakeSHA256HashingCountingReader r) (ParseReader_bufsize srcsize)"
  have u: "unmixed (Reader (rd br))"
    using assms(1) by (simp add: br_def NewReaderSize_def MakeSHA256HashingCountingReader_def)
  have p0: "pos br = 0" "stream br = remaining r"
    by (simp_all add: br_def NewReaderSize_def MakeSHA256HashingCountingReader_def pos_def
        Buffered_def stream_def)
  have ok: "offsets_ok (msg_files m) (pos br)" using assms(2) by (simp add: offsets_ok_def)
  from assms(3) have l: "ParseReader_loop X srcname br m 0 0 = (res, m', br')"
    by (simp add: ParseReader_parse_def br_def)
  from ParseReader_loop_offsets[OF l u] ok
  have r: "offsets_ok (msg_files m') (pos br')" "stream br' = stream br" by auto
  have "pos br' \<le> nread (rd br')" by (simp add: pos_def Buffered_def)
  from offsets_ok_mono[OF r(1) this]
  show "sorted_wrt (<) (map dataStart (msg_files m'))"
    and "list_all (\<lambda>f. 0 \<le> dataLen f \<and> dataStart f + dataLen f \<le> nread (rd br')) (msg_files m')"
    by (simp_all add: offsets_ok_def)
  show "hash (rd br') @ remaining (Reader (rd br')) = remaining r"
    using r(2) p0(2) by (simp add: stream_def)
qed

text \<open>
  On an error-free source a parse that succeeds has read the whole stream: the bytes
  hashed, of which the id holds the digest, are exactly the bytes of the source.
\<close>

lemma error_free_unmixed: "error_free r \<Longrightarrow> unmixed r"
  by (auto simp: error_free_def unmixed_def list_all_iff)

lemma Reader_Read_error_free:
  assumes "Reader_Read r lenp = ((p, e), r')" "error_free r"
  shows "error_free r'" "e \<noteq> None \<Longrightarrow> e = Some EOF \<and> r' = []" "r = [] \<Longrightarrow> r' = []"
  using assms by (cases r; auto simp: error_free_def split: if_splits)+

lemma HashingCountingReader_Read_error_free:
  assumes "HashingCountingReader_Read h lenp = ((p, e), h')" "error_free (Reader h)"
  shows "error_free (Reader h')" "e \<noteq> None \<Longrightarrow> e = Some EOF \<and> Reader h' = []"
    "Reader h = [] \<Longrightarrow> Reader h' = []"
proof -
  obtain p0 e0 r0 where rr: "Reader_Read (Reader h) lenp = ((p0, e0), r0)"
    by (metis prod.exhaust)
  from assms(1) rr have eq: "e = e0" "Reader h' = r0"
    by (auto simp: HashingCountingReader_Read_def Let_def split: if_splits)
  from Reader_Read_error_free[OF rr assms(2)] eq
  show "error_free (Reader h')" "e \<noteq> None \<Longrightarrow> e = Some EOF \<and> Reader h' = []"
    "Reader h = [] \<Longrightarrow> Reader h' = []" by auto
qed

lemma settled_buf: "settled b \<Longrightarrow> settled (b\<lparr>buf := x\<rparr>)"
  by (simp add: settled_def)

lemma settled_clear: "settled b \<Longrightarrow> settled (b\<lparr>err := None\<rparr>)"
  by (simp add: settled_def)

lemma fill_loop_settled: "settled b \<Longrightarrow> settled (fill_loop i b)"
proof (induction i arbitrary: b)
  case 0
  then show ?case by (simp add: settled_def)
next
  case (Suc i)
  obtain p e r where h: "HashingCountingReader_Read (rd b) (bufsize b - length (buf b)) = ((p, e), r)"
    by (metis prod.exhaust)
  from Suc.prems have ef: "error_free (Reader (rd b))" by (simp add: settled_def)
  note u = HashingCountingReader_Read_error_free[OF h ef]
  define b1 where "b1 = b\<lparr>rd := r, buf := buf b @ p\<rparr>"
  have s1: "settled b1" using Suc.prems u(1,3) by (auto simp: settled_def b1_def)
  have s2: "e \<noteq> None \<Longrightarrow> settled (b1\<lparr>err := e\<rparr>)"
    using u(1,2) by (auto simp: settled_def b1_def)
  have "fill_loop (Suc i) b = (if e \<noteq> None then b1\<lparr>err := e\<rparr>
      else if 0 < length p then b1 else fill_loop i b1)"
    using h by (simp add: b1_def Let_def)
  then show ?case using s1 s2 Suc.IH[OF s1] by auto
qed

lemma fill_settled: "settled b \<Longrightarrow> settled (fill b)"
  using fill_loop_settled[of b maxConsecutiveEmptyReads]
  by (auto simp: fill_def settled_def)

lemma ReadSlice_settled:
  "ReadSlice b delim = ((line, e), b') \<Longrightarrow> settled b \<Longrightarrow>
     settled b' \<and> (e = Some EOF \<longrightarrow> Reader (rd b') = [])"
proof (induction b delim arbitrary: line e b' rule: ReadSlice.induct)
  case (1 b delim)
  show ?case
  proof (cases "0 \<le> IndexByte (buf b) delim \<or> err b \<noteq> None \<or> bufsize b \<le> length (buf b)")
    case True
    with "1.prems" show ?thesis
      by (auto simp: ReadSlice.simps[of b delim] Let_def settled_def split: if_splits)
  next
    case False
    with "1.prems" have r: "ReadSlice (fill b) delim = ((line, e), b')"
      by (simp add: ReadSlice.simps[of b delim] Let_def)
    from False "1.IH"[OF refl _ _ _ r fill_settled[OF "1.prems"(2)]] show ?thesis by auto
  qed
qed

lemma ReadLine_settled:
  assumes "ReadLine b = ((line, tooLarge, e), b')" "settled b"
  shows "settled b'" "e = Some EOF \<Longrightarrow> Reader (rd b') = [] \<and> buf b' = []"
proof -
  obtain l0 e0 b1 where rs: "ReadSlice b (CHR 0x0A) = ((l0, e0), b1)"
    by (metis prod.exhaust)
  note s = ReadSlice_settled[OF rs assms(2)]
  show "settled b'"
    using assms(1) rs s settled_buf[of b1 "[CHR 0x0D]"]
    by (auto simp: ReadLine_def Let_def split: if_splits)
  show "e = Some EOF \<Longrightarrow> Reader (rd b') = [] \<and> buf b' = []"
    using assms(1) rs s ReadSlice_error_empties[of b "CHR 0x0A" l0 EOF b1]
    by (auto simp: ReadLine_def Let_def split: if_splits)
qed

lemma Discard_loop_settled:
  "Discard_loop b n remain = ((d, e), b') \<Longrightarrow> settled b \<Longrightarrow> settled b'"
proof (induction b n remain arbitrary: d e b' rule: Discard_loop.induct)
  case (1 b n remain)
  define b1 where "b1 = (if length (buf b) = 0 then fill b else b)"
  define skip where "skip = (if remain < Buffered b1 then remain else Buffered b1)"
  define b2 where "b2 = b1\<lparr>buf := drop (nat skip) (buf b1)\<rparr>"
  define remain' where "remain' = remain - skip"
  have eq: "Discard_loop b n remain =
      (if remain' = 0 then ((n, None), b2)
       else if err b2 \<noteq> None then ((n - remain', err b2), b2\<lparr>err := None\<rparr>)
       else Discard_loop b2 n remain')"
    unfolding b1_def skip_def b2_def remain'_def
    by (subst Discard_loop.simps) (simp only: Let_def)
  have s1: "settled b1" using "1.prems"(2) fill_settled by (simp add: b1_def)
  have s2: "settled b2" unfolding b2_def by (rule settled_buf[OF s1])
  show ?case
  proof (cases "remain' = 0 \<or> err b2 \<noteq> None")
    case True
    with "1.prems"(1) s2 settled_clear[OF s2] show ?thesis unfolding eq by (auto split: if_splits)
  next
    case False
    with "1.prems"(1) have r: "Discard_loop b2 n remain' = ((d, e), b')" unfolding eq by simp
    from False "1.IH"[OF b1_def skip_def b2_def remain'_def _ _ r s2] show ?thesis by auto
  qed
qed

lemma Discard_settled: "Discard b n = ((d, e), b') \<Longrightarrow> settled b \<Longrightarrow> settled b'"
  using Discard_loop_settled[of b n n d e b'] by (auto simp: Discard_def split: if_splits)

lemma bufio_Read_settled:
  assumes "bufio_Read b lenp = ((p, e), b')" "settled b"
  shows "settled b'"
proof -
  from assms(2) have ef: "error_free (Reader (rd b))"
    and eof: "err b = Some EOF \<longrightarrow> Reader (rd b) = []" by (simp_all add: settled_def)
  have direct: "settled (b\<lparr>rd := r, err := None\<rparr>)"
    if "HashingCountingReader_Read (rd b) n = ((q, x), r)" for n q x r
    using HashingCountingReader_Read_error_free(1)[OF that ef] by (simp add: settled_def)
  have filled: "settled (b\<lparr>rd := r, buf := d, err := x\<rparr>)"
    if "HashingCountingReader_Read (rd b) n = ((q, x), r)" for n q x r d
  proof (cases x)
    case None
    then show ?thesis
      using HashingCountingReader_Read_error_free(1)[OF that ef] by (simp add: settled_def)
  next
    case (Some a)
    then have "x \<noteq> None" by simp
    from HashingCountingReader_Read_error_free(2)[OF that ef this]
      HashingCountingReader_Read_error_free(1)[OF that ef]
    show ?thesis by (simp add: settled_def)
  qed
  consider (zero) "lenp = 0" | (buffered) "lenp \<noteq> 0" "length (buf b) \<noteq> 0"
    | (kept) "lenp \<noteq> 0" "length (buf b) = 0" "err b \<noteq> None"
    | (large) "lenp \<noteq> 0" "length (buf b) = 0" "err b = None" "bufsize b \<le> lenp"
    | (small) "lenp \<noteq> 0" "length (buf b) = 0" "err b = None" "\<not> bufsize b \<le> lenp"
    by blast
  then show ?thesis
  proof cases
    case zero
    with assms(1) have "b' = b \<or> b' = b\<lparr>err := None\<rparr>"
      by (auto simp: bufio_Read_def split: if_splits)
    then show ?thesis using assms(2) settled_clear by auto
  next
    case buffered
    with assms(1) have "b' = b\<lparr>buf := drop (min lenp (length (buf b))) (buf b)\<rparr>"
      by (auto simp: bufio_Read_def Let_def)
    then show ?thesis using settled_buf[OF assms(2)] by simp
  next
    case kept
    with assms(1) have "b' = b\<lparr>err := None\<rparr>" by (auto simp: bufio_Read_def)
    then show ?thesis using settled_clear[OF assms(2)] by simp
  next
    case large
    obtain q x r where h: "HashingCountingReader_Read (rd b) lenp = ((q, x), r)"
      by (metis prod.exhaust)
    from large assms(1) h have "b' = b\<lparr>rd := r, err := None\<rparr>"
      by (simp add: bufio_Read_def)
    then show ?thesis using direct[OF h] by simp
  next
    case small
    obtain q x r where h: "HashingCountingReader_Read (rd b) (bufsize b) = ((q, x), r)"
      by (metis prod.exhaust)
    from small assms(1) h
    have "b' = b\<lparr>rd := r, err := None\<rparr> \<or>
          b' = b\<lparr>rd := r, buf := drop (min lenp (length q)) q, err := x\<rparr>"
      by (simp add: bufio_Read_def Let_def split: if_splits)
    then show ?thesis using direct[OF h] filled[OF h] by auto
  qed
qed

lemma ReadAtLeast_loop_settled:
  "ReadAtLeast_loop b minimum acc e = ((out, e'), b') \<Longrightarrow> settled b \<Longrightarrow> settled b'"
proof (induction b minimum acc e arbitrary: out e' b' rule: ReadAtLeast_loop.induct)
  case (1 b minimum acc e)
  show ?case
  proof (cases "length acc < minimum \<and> e = None")
    case False
    with "1.prems" show ?thesis
      by (auto simp: ReadAtLeast_loop.simps[of b minimum acc e])
  next
    case True
    obtain p e1 b1 where r: "bufio_Read b (minimum - length acc) = ((p, e1), b1)"
      by (metis prod.exhaust)
    from True r "1.prems"(1) have rec: "ReadAtLeast_loop b1 minimum (acc @ p) e1 = ((out, e'), b')"
      by (simp add: ReadAtLeast_loop.simps[of b minimum acc])
    from "1.IH"[OF True r[symmetric] refl rec bufio_Read_settled[OF r "1.prems"(2)]]
    show ?thesis .
  qed
qed

lemma ReadFull_settled: "ReadFull b len = ((out, e), b') \<Longrightarrow> settled b \<Longrightarrow> settled b'"
proof -
  assume a: "ReadFull b len = ((out, e), b')" "settled b"
  obtain acc e0 b0 where r: "ReadAtLeast_loop b len [] None = ((acc, e0), b0)"
    by (metis prod.exhaust)
  from ReadAtLeast_loop_settled[OF r a(2)] a(1) r show ?thesis
    by (auto simp: ReadFull_def split: if_splits)
qed

lemma ParseReader_field_settled:
  assumes "ParseReader_field X srcname lineno fileno f line p br m = (e, m', br', fileno')"
    and "settled br"
  shows "settled br'"
proof (cases f)
  case FIELD_BODY
  show ?thesis
  proof (cases "ParseUint (TrimSpace X (drop p line)) 64")
    case (Inl x)
    with assms FIELD_BODY show ?thesis by auto
  next
    case (Inr sz)
    obtain data e1 br1 where r: "ReadFull br (nat sz) = ((data, e1), br1)" by (metis prod.exhaust)
    from ReadFull_settled[OF r assms(2)] assms FIELD_BODY Inr r
    show ?thesis by (auto split: if_splits)
  qed
next
  case FIELD_FILE
  define line1 where "line1 = TrimSpace X (drop p line)"
  define line2 where "line2 = (if IndexByte line1 (CHR '' '') \<noteq> - 1
       then take (nat (IndexByte line1 (CHR '' ''))) line1 else line1)"
  show ?thesis
  proof (cases "ParseUint line2 64")
    case (Inl x)
    with assms FIELD_FILE show ?thesis
      by (auto simp: Let_def line1_def line2_def split: if_splits)
  next
    case (Inr size64)
    obtain d e1 br1 where r: "Discard br (wrap_int64 size64) = ((d, e1), br1)"
      by (metis prod.exhaust)
    from Discard_settled[OF r assms(2)] assms FIELD_FILE Inr r show ?thesis
      by (auto simp: Let_def line1_def line2_def split: if_splits)
  qed
qed (use assms in \<open>auto simp: Let_def split: option.splits prod.splits\<close>)

lemma ParseReader_line_settled:
  "ParseReader_line X srcname lineno fileno line br m = (e, m', br', fileno') \<Longrightarrow>
     settled br \<Longrightarrow> settled br'"
  using ParseReader_field_settled
  by (fastforce simp: ParseReader_line_def Let_def split: if_splits option.splits)

lemma ParseReader_loop_consumes_all:
  "ParseReader_loop X srcname br m lineno fileno = (None, m', br') \<Longrightarrow> settled br \<Longrightarrow>
     Reader (rd br') = [] \<and> buf br' = []"
proof (induction X srcname br m lineno fileno arbitrary: m' br' rule: ParseReader_loop.induct)
  case (1 X srcname br m lineno fileno)
  obtain line tl e br1 where rl: "ReadLine br = ((line, tl, e), br1)"
    by (metis prod.exhaust)
  note s1 = ReadLine_settled[OF rl "1.prems"(2)]
  show ?case
  proof (cases "e = None \<and> \<not> tl")
    case False
    with "1.prems"(1) rl have "e = Some EOF" "br' = br1"
      by (auto simp: ParseReader_loop.simps[of X srcname br m lineno fileno] Let_def split: if_splits)
    with s1(2) show ?thesis by simp
  next
    case True
    obtain e2 m2 br2 fileno2 where pl:
      "ParseReader_line X srcname (lineno + 1) fileno line br1 m = (e2, m2, br2, fileno2)"
      by (metis prod.exhaust)
    note s2 = ParseReader_line_settled[OF pl s1(1)]
    show ?thesis
    proof (cases e2)
      case None
      with True "1.prems"(1) rl pl
      have rec: "ParseReader_loop X srcname br2 m2 (lineno + 1) fileno2 = (None, m', br')"
        by (simp add: ParseReader_loop.simps[of X srcname br m lineno fileno] Let_def)
      from True have c: "\<not> e \<noteq> None" "\<not> tl" by auto
      from "1.IH"[OF refl rl[symmetric] refl refl c pl[symmetric] None refl refl rec s2]
      show ?thesis .
    next
      case (Some a)
      with True "1.prems"(1) rl pl show ?thesis
        by (auto simp: ParseReader_loop.simps[of X srcname br m lineno fileno] Let_def)
    qed
  qed
qed

lemma digest_input_is_stream:
  assumes "error_free r" "ParseReader_parse X m r srcsize srcname = (None, m', br')"
  shows "hash (rd br') = remaining r" and "Reader (rd br') = []" and "buf br' = []"
proof -
  define br where "br = NewReaderSize (MakeSHA256HashingCountingReader r) (ParseReader_bufsize srcsize)"
  have st: "settled br"
    using assms(1) by (simp add: br_def NewReaderSize_def MakeSHA256HashingCountingReader_def settled_def)
  from assms(2) have l: "ParseReader_loop X srcname br m 0 0 = (None, m', br')"
    by (simp add: ParseReader_parse_def br_def)
  from ParseReader_loop_consumes_all[OF l st]
  show e: "Reader (rd br') = []" "buf br' = []" by auto
  have "stream br = remaining r"
    by (simp add: br_def NewReaderSize_def MakeSHA256HashingCountingReader_def stream_def)
  moreover have "unmixed (Reader (rd br))"
    using error_free_unmixed[OF assms(1)]
    by (simp add: br_def NewReaderSize_def MakeSHA256HashingCountingReader_def)
  ultimately have "stream br' = remaining r"
    using ParseReader_loop_offsets[OF l] by simp
  then show "hash (rd br') = remaining r" using e by (simp add: stream_def remaining_def)
qed

end
